theory Spec2Isabelle
  imports Main "HOL-Library.Word" "HOL-Library.AList"
begin

section \<open>Outbound mail delivery of the remailer (mail.go)\<close>

text \<open>
  Go strings are byte sequences; they are modelled as \<open>string\<close> (a list of \<open>char\<close>,
  one per byte). Errors are values of the datatype \<open>error\<close>: one constructor for each
  \<open>fmt.Errorf\<close> of the source, and \<open>External\<close> for an error that the operating
  system or the standard library hands back.
\<close>

subsection \<open>The functions of package strings that mail.go calls\<close>

text \<open>\<open>strings.HasPrefix(s, prefix)\<close>.\<close>

fun HasPrefix :: "string \<Rightarrow> string \<Rightarrow> bool" where
  "HasPrefix s [] = True"
| "HasPrefix [] (p # ps) = False"
| "HasPrefix (c # cs) (p # ps) = (c = p \<and> HasPrefix cs ps)"

text \<open>\<open>strings.HasSuffix(s, suffix)\<close>:
  \<open>len(s) >= len(suffix) && s[len(s)-len(suffix):] == suffix\<close>.\<close>

definition HasSuffix :: "string \<Rightarrow> string \<Rightarrow> bool" where
  "HasSuffix s suffix =
     (length suffix \<le> length s \<and> drop (length s - length suffix) s = suffix)"

text \<open>\<open>strings.Contains(s, substr)\<close>: \<open>substr\<close> occurs at some index of \<open>s\<close>.\<close>

fun Contains :: "string \<Rightarrow> string \<Rightarrow> bool" where
  "Contains [] substr = (substr = [])"
| "Contains (c # cs) substr = (HasPrefix (c # cs) substr \<or> Contains cs substr)"

text \<open>
  \<open>strings.Split(s, sep)\<close> for a separator of one byte, as in \<open>strings.Split(addy, "@")\<close>:
  the loop of \<open>genSplit\<close> cuts \<open>s\<close> at the first separator, keeps what is before it and goes
  on with what is after it; the rest of the string is the last component.
\<close>

function Split :: "string \<Rightarrow> char \<Rightarrow> string list" where
  "Split s sep =
     (case dropWhile (\<lambda>c. c \<noteq> sep) s of
        [] \<Rightarrow> [s]
      | _ # rest \<Rightarrow> takeWhile (\<lambda>c. c \<noteq> sep) s # Split rest sep)"
  by pat_completeness auto
termination
proof (relation "measure (\<lambda>(s, sep). length s)")
  show "wf (measure (\<lambda>(s, sep). length s))" by simp
next
  fix s :: string and sep :: char and x :: char and rest :: string
  assume "dropWhile (\<lambda>c. c \<noteq> sep) s = x # rest"
  then have "length (x # rest) \<le> length s"
    using length_dropWhile_le [of "\<lambda>c. c \<noteq> sep" s] by simp
  then show "((rest, sep), (s, sep)) \<in> measure (\<lambda>(s, sep). length s)" by simp
qed

declare Split.simps [simp del]

subsection \<open>Errors\<close>

datatype error =
    NoAtSign string            \<comment> \<open>"%s: Email address contains no '@'"\<close>
  | MalformedAddress string    \<comment> \<open>"%s: Malformed email address"\<close>
  | NoRecipients string        \<comment> \<open>"%s: No email recipients found"\<close>
  | InvalidProxyURL error      \<comment> \<open>"invalid proxy URL: %v"\<close>
  | SocksDialerFailed error    \<comment> \<open>"failed to create SOCKS5 dialer: %v"\<close>
  | TorDialFailed error        \<comment> \<open>"failed to dial through Tor: %v"\<close>
  | ErrHeaderNotPresent        \<comment> \<open>\<open>mail.ErrHeaderNotPresent\<close>\<close>
  | EOF                        \<comment> \<open>\<open>io.EOF\<close>\<close>
  | MalformedInitialLine string  \<comment> \<open>"malformed initial line: " + line\<close>
  | MalformedHeaderLine string   \<comment> \<open>"malformed header line: " + kv\<close>
  | External string            \<comment> \<open>an error of the system or the library, with its message\<close>

subsection \<open>splitEmailAddress\<close>

record emailAddress =
  name :: string
  domain :: string

text \<open>
  The source returns the pair \<open>(e, err)\<close> of its named results; on both error paths
  \<open>e\<close> is still the zero value. The model returns \<open>Inl err\<close> there and \<open>Inr e\<close> when
  \<open>err\<close> is nil.
\<close>

definition splitEmailAddress :: "string \<Rightarrow> error + emailAddress" where
  "splitEmailAddress addy =
     (if \<not> Contains addy ''@'' then Inl (NoAtSign addy)
      else
        let components = Split addy CHR ''@'' in
        if length components \<noteq> 2 then Inl (MalformedAddress addy)
        else Inr \<lparr>name = components ! 0, domain = components ! 1\<rparr>)"

subsection \<open>Configuration\<close>

text \<open>
  The configuration type lives in package \<open>config\<close>, outside these files; the records
  hold the fields that mail.go and the dialer read. \<open>cfg.Tor\<close> is a pointer that the
  source compares with nil, hence an \<open>option\<close>. Go's \<open>int\<close> is a 64-bit word where the
  source multiplies it (the timeout) and an \<open>int\<close> where it is only compared or printed.
\<close>

record TorConfig =
  Enabled :: bool
  SocksProxy :: string
  Timeout :: "64 word"

record MailConfig =
  Outfile :: bool
  Pipe :: string
  Sendmail :: bool
  SMTPRelay :: string
  SMTPPort :: int
  MXRelay :: bool
  OnionRelay :: bool
  ForceTorSMTP :: bool
  UseTLS :: bool
  DisableTLSOnion :: bool
  Username :: string
  Password :: string
  Sender :: string
  OutboundName :: string
  OutboundAddy :: string
  CustomFrom :: bool

record PoolConfig =
  MaxAge :: int

record RemailerConfig =
  RemailerAddress :: string   \<comment> \<open>\<open>cfg.Remailer.Address\<close>\<close>

record Config =
  Mail :: MailConfig
  Tor :: "TorConfig option"
  Pool :: PoolConfig
  Remailer :: RemailerConfig

subsection \<open>Messages, the environment and what a run leaves behind\<close>

text \<open>
  \<open>mail.Header\<close> is a Go map from a header name to its values; \<open>mail.Message\<close> holds
  the header and the body, whose reader is modelled by the bytes it yields.
\<close>

type_synonym Header = "string \<Rightarrow> string list option"

record Message =
  Header :: Header
  Body :: string

record MX =
  Host :: string
  Pref :: "16 word"

record Address =
  Name :: string
  Address :: string

text \<open>
  Every action on the outside world is recorded as an event, in the order the source
  performs it. \<open>EvMailBytes\<close> marks the entry of \<open>mailBytes\<close> (the log line at its head)
  with the payload and the recipients it was given.
\<close>

datatype event =
    EvOpen string                      \<comment> \<open>\<open>os.Open(filename)\<close>\<close>
  | EvClose string                     \<comment> \<open>the deferred \<open>f.Close()\<close>\<close>
  | EvMailBytes string "string list"   \<comment> \<open>\<open>mailBytes(payload, sendTo)\<close> is entered\<close>
  | EvCreate string                    \<comment> \<open>\<open>os.Create(filename)\<close>\<close>
  | EvWriteString string string        \<comment> \<open>\<open>f.WriteString(payload)\<close>\<close>
  | EvExec string string               \<comment> \<open>\<open>execSend(payload, execCmd)\<close>\<close>
  | EvSendMail string string "string list" string  \<comment> \<open>\<open>smtp.SendMail\<close>\<close>
  | EvLookupMX string                  \<comment> \<open>\<open>net.LookupMX(domain)\<close>\<close>
  | EvDialTor string string "64 word"  \<comment> \<open>the SOCKS5 dial: proxy, address, timeout\<close>
  | EvDialTimeout string "64 word"     \<comment> \<open>\<open>net.DialTimeout("tcp", addr, timeout)\<close>\<close>
  | EvNewClient string                 \<comment> \<open>\<open>smtp.NewClient(conn, relay)\<close>\<close>
  | EvStartTLS                         \<comment> \<open>\<open>client.StartTLS(conf)\<close>\<close>
  | EvAuth string string string        \<comment> \<open>\<open>client.Auth\<close>: user, password, host\<close>
  | EvMail string                      \<comment> \<open>\<open>client.Mail(sender)\<close>\<close>
  | EvRcpt string                      \<comment> \<open>\<open>client.Rcpt(addr)\<close>\<close>
  | EvData                             \<comment> \<open>\<open>client.Data()\<close>\<close>
  | EvWrite string                     \<comment> \<open>\<open>w.Write(payload)\<close>\<close>
  | EvCloseData                        \<comment> \<open>\<open>w.Close()\<close>\<close>
  | EvQuit                             \<comment> \<open>the deferred \<open>client.Quit()\<close>\<close>

text \<open>
  A Go function either returns or panics (a nil pointer dereference here); a run is the
  events it performed and how it ended.
\<close>

datatype 'a outcome = Panic | Return 'a

type_synonym 'a run = "event list \<times> 'a outcome"

text \<open>
  The environment answers every call that leaves the program: the file system, DNS, the
  network, the SMTP server, the clock, the parsers of the standard library, and the
  order in which \<open>range\<close> visits a map's keys. The last three fields stand for functions
  of this repository that are not in these files (\<open>daysAgo\<close>, \<open>messageID\<close>,
  \<open>randPoolFilename\<close>). \<open>smtp_Extension\<close> takes whether the session runs under TLS.
\<close>

record env =
  os_Open :: "string \<Rightarrow> error + string"
  mail_ReadMessage :: "string \<Rightarrow> error + Message"
  time_Parse :: "string \<Rightarrow> string \<Rightarrow> error + int"
  time_Now_Format :: "string \<Rightarrow> string"
  mail_ParseAddressList :: "string \<Rightarrow> error + Address list"
  range_order :: "Header \<Rightarrow> string list"
  net_LookupMX :: "string \<Rightarrow> MX list \<times> error option"
  url_Parse :: "string \<Rightarrow> error option"
  proxy_FromURL :: "string \<Rightarrow> error option"
  proxy_DialContext :: "string \<Rightarrow> string \<Rightarrow> 64 word \<Rightarrow> error option"
  net_DialTimeout :: "string \<Rightarrow> 64 word \<Rightarrow> error option"
  smtp_NewClient :: "string \<Rightarrow> error option"
  smtp_Extension :: "bool \<Rightarrow> string \<Rightarrow> bool"
  smtp_StartTLS :: "error option"
  smtp_Auth :: "string \<Rightarrow> string \<Rightarrow> string \<Rightarrow> error option"
  smtp_Mail :: "string \<Rightarrow> error option"
  smtp_Rcpt :: "string \<Rightarrow> error option"
  smtp_Data :: "error option"
  smtp_Write :: "string \<Rightarrow> error option"
  smtp_Close :: "error option"
  smtp_SendMail :: "string \<Rightarrow> string \<Rightarrow> string list \<Rightarrow> string \<Rightarrow> error option"
  os_Create :: "string \<Rightarrow> error option"
  file_WriteString :: "string \<Rightarrow> string \<Rightarrow> error option"
  exec_Run :: "string \<Rightarrow> string \<Rightarrow> error option outcome"
  daysAgo :: "int \<Rightarrow> int"
  messageID :: string
  randPoolFilename :: "string \<Rightarrow> string"

definition shortdate :: string where
  "shortdate = ''2 Jan 2006''"

definition rfc5322date :: string where
  "rfc5322date = ''Mon, 2 Jan 2006 15:04:05 -0700''"

subsection \<open>Header lookup\<close>

text \<open>
  \<open>textproto.CanonicalMIMEHeaderKey\<close>: a key with a byte that is not a token byte is
  returned as it is; otherwise the first letter and each letter after a hyphen become
  upper case and every other letter lower case.
\<close>

definition validHeaderFieldByte :: "char \<Rightarrow> bool" where
  "validHeaderFieldByte c =
     (c \<in> set (''!#$%&*+-.^_`|~0123456789''
               @ ''abcdefghijklmnopqrstuvwxyz'' @ ''ABCDEFGHIJKLMNOPQRSTUVWXYZ''
               @ [CHR 0x27]))"

definition toUpper :: "char \<Rightarrow> char" where
  "toUpper c =
     (case map_of (zip ''abcdefghijklmnopqrstuvwxyz'' ''ABCDEFGHIJKLMNOPQRSTUVWXYZ'') c of
        Some u \<Rightarrow> u | None \<Rightarrow> c)"

definition toLower :: "char \<Rightarrow> char" where
  "toLower c =
     (case map_of (zip ''ABCDEFGHIJKLMNOPQRSTUVWXYZ'' ''abcdefghijklmnopqrstuvwxyz'') c of
        Some l \<Rightarrow> l | None \<Rightarrow> c)"

fun canonicalBytes :: "bool \<Rightarrow> string \<Rightarrow> string" where
  "canonicalBytes upper [] = []"
| "canonicalBytes upper (c # cs) =
     (let c' = (if upper then toUpper c else toLower c)
      in c' # canonicalBytes (c' = CHR ''-'') cs)"

definition CanonicalMIMEHeaderKey :: "string \<Rightarrow> string" where
  "CanonicalMIMEHeaderKey s =
     (if list_all validHeaderFieldByte s then canonicalBytes True s else s)"

text \<open>\<open>Header.Get(key)\<close>: the first value stored under the canonical form of \<open>key\<close>,
  or the empty string.\<close>

definition Get :: "Header \<Rightarrow> string \<Rightarrow> string" where
  "Get h key =
     (case h (CanonicalMIMEHeaderKey key) of
        None \<Rightarrow> []
      | Some [] \<Rightarrow> []
      | Some (v # _) \<Rightarrow> v)"

text \<open>\<open>Header.AddressList(key)\<close>: \<open>ErrHeaderNotPresent\<close> when \<open>Get\<close> yields the
  empty string, else the parsed address list.\<close>

definition AddressList :: "env \<Rightarrow> Header \<Rightarrow> string \<Rightarrow> error + Address list" where
  "AddressList env h key =
     (let hdr = Get h key
      in if hdr = [] then Inl ErrHeaderNotPresent else mail_ParseAddressList env hdr)"

subsection \<open>assemble, headToAddy, parseFrom\<close>

text \<open>
  The loop of \<open>assemble\<close> over the keys of the header map, in the order \<open>range\<close>
  yields them: an internal header writes nothing, any other one line.
\<close>

fun assemble_headers :: "Header \<Rightarrow> string list \<Rightarrow> string" where
  "assemble_headers hdr [] = []"
| "assemble_headers hdr (h # hs) =
     (if HasPrefix h ''Yamn-'' then []
      else h @ '': '' @ Get hdr h @ [CHR 0x0A])
     @ assemble_headers hdr hs"

definition assemble :: "env \<Rightarrow> Message \<Rightarrow> string" where
  "assemble env msg =
     assemble_headers (Header msg) (range_order env (Header msg))
     @ [CHR 0x0A] @ Body msg"

definition headToAddy :: "env \<Rightarrow> Header \<Rightarrow> string \<Rightarrow> string list" where
  "headToAddy env h header =
     (case h header of
        None \<Rightarrow> []
      | Some _ \<Rightarrow>
          (case AddressList env h header of
             Inl err \<Rightarrow> []
           | Inr addyList \<Rightarrow> map Address addyList))"

definition parseFrom :: "Config \<Rightarrow> env \<Rightarrow> Header \<Rightarrow> string list" where
  "parseFrom cfg env h =
     (let outbound = [OutboundName (Mail cfg) @ '' <'' @ OutboundAddy (Mail cfg) @ ''>'']
      in case AddressList env h ''From'' of
           Inl err \<Rightarrow> outbound
         | Inr [] \<Rightarrow> outbound
         | Inr (from0 # _) \<Rightarrow>
             if CustomFrom (Mail cfg) then [Name from0 @ '' <'' @ Address from0 @ ''>'']
             else if length (Name from0) = 0 then outbound
             else [Name from0 @ '' <'' @ OutboundAddy (Mail cfg) @ ''>''])"

subsection \<open>mxLookup and shouldUseTor\<close>

text \<open>
  The loop over the MX records: \<open>relay\<close> is still empty when it starts; a record is
  skipped when onion relays are off and its host ends in \<open>.onion.\<close>, and the first
  record that is not skipped ends the loop.
\<close>

fun mxLoop :: "bool \<Rightarrow> MX list \<Rightarrow> string" where
  "mxLoop onionRelay [] = []"
| "mxLoop onionRelay (mx # rest) =
     (if \<not> onionRelay \<and> HasSuffix (Host mx) ''.onion.'' then mxLoop onionRelay rest
      else Host mx)"

text \<open>The result is the pair \<open>(relay, err)\<close> of the source, with the DNS queries made.\<close>

definition mxLookup :: "Config \<Rightarrow> env \<Rightarrow> string \<Rightarrow> event list \<times> string \<times> error option" where
  "mxLookup cfg env email =
     (case splitEmailAddress email of
        Inl err \<Rightarrow> ([], [], Some err)
      | Inr emailParts \<Rightarrow>
          if HasSuffix (domain emailParts) ''.onion'' then ([], domain emailParts, None)
          else
            (case net_LookupMX env (domain emailParts) of
               (mxRecords, Some err) \<Rightarrow>
                 ([EvLookupMX (domain emailParts)], domain emailParts, None)
             | (mxRecords, None) \<Rightarrow>
                 let relay = mxLoop (OnionRelay (Mail cfg)) mxRecords
                 in ([EvLookupMX (domain emailParts)],
                     if relay = [] then domain emailParts else relay, None)))"

definition shouldUseTor :: "Config \<Rightarrow> string \<Rightarrow> bool" where
  "shouldUseTor cfg address =
     (case Tor cfg of
        None \<Rightarrow> False
      | Some tor \<Rightarrow>
          if \<not> Enabled tor then False
          else if Contains address ''.onion'' then True
          else if ForceTorSMTP (Mail cfg) then True
          else False)"

subsection \<open>Dialling\<close>

text \<open>\<open>%d\<close> of \<open>fmt.Sprintf\<close>: the decimal digits, with a minus sign when negative.\<close>

fun digits :: "nat \<Rightarrow> string" where
  "digits n =
     (if n < 10 then [char_of (48 + n)]
      else digits (n div 10) @ [char_of (48 + n mod 10)])"

declare digits.simps [simp del]

definition itoa :: "int \<Rightarrow> string" where
  "itoa i = (if i < 0 then ''-'' @ digits (nat (- i)) else digits (nat i))"

text \<open>\<open>time.Duration(cfg.Tor.Timeout) * time.Second\<close>, 30 seconds when that is zero;
  the product is taken in 64 bits.\<close>

definition dialTimeout :: "TorConfig \<Rightarrow> 64 word" where
  "dialTimeout tor =
     (let timeout = Timeout tor * 1000000000
      in if timeout = 0 then 30 * 1000000000 else timeout)"

text \<open>\<open>dialThroughTor\<close> reads \<open>cfg.Tor.SocksProxy\<close> first, so it panics on a nil
  \<open>cfg.Tor\<close>.\<close>

definition dialThroughTor :: "Config \<Rightarrow> env \<Rightarrow> string \<Rightarrow> error option run" where
  "dialThroughTor cfg env address =
     (case Tor cfg of
        None \<Rightarrow> ([], Panic)
      | Some tor \<Rightarrow>
          let torProxy = (if SocksProxy tor = [] then ''127.0.0.1:9050'' else SocksProxy tor)
          in case url_Parse env (''socks5://'' @ torProxy) of
               Some err \<Rightarrow> ([], Return (Some (InvalidProxyURL err)))
             | None \<Rightarrow>
                 (case proxy_FromURL env (''socks5://'' @ torProxy) of
                    Some err \<Rightarrow> ([], Return (Some (SocksDialerFailed err)))
                  | None \<Rightarrow>
                      let timeout = dialTimeout tor
                      in case proxy_DialContext env torProxy address timeout of
                           Some err \<Rightarrow>
                             ([EvDialTor torProxy address timeout],
                              Return (Some (TorDialFailed err)))
                         | None \<Rightarrow> ([EvDialTor torProxy address timeout], Return None)))"

subsection \<open>smtpRelay\<close>

text \<open>
  The first part of \<open>smtpRelay\<close>, up to the creation of the SMTP client: the transport
  decision over the recipients, the relay and port (looked up in DNS for a single
  recipient when MX relaying is on), the timeout read from \<open>cfg.Tor\<close>, the dial and
  \<open>smtp.NewClient\<close>. It yields the error it returns with, or the relay of the session.
\<close>

definition smtpTarget :: "Config \<Rightarrow> env \<Rightarrow> string list \<Rightarrow> event list \<times> string \<times> int" where
  "smtpTarget cfg env sendTo =
     (let useTor = list_ex (shouldUseTor cfg) sendTo
      in if MXRelay (Mail cfg) \<and> length sendTo = 1
            \<and> \<not> Contains (sendTo ! 0) ''.onion'' \<and> \<not> useTor
         then
           (case mxLookup cfg env (sendTo ! 0) of
              (evs, mx, None) \<Rightarrow> (evs, mx, 25)
            | (evs, mx, Some err) \<Rightarrow> (evs, SMTPRelay (Mail cfg), SMTPPort (Mail cfg)))
         else ([], SMTPRelay (Mail cfg), SMTPPort (Mail cfg)))"

definition smtpConnect :: "Config \<Rightarrow> env \<Rightarrow> string list \<Rightarrow> (error + string) run" where
  "smtpConnect cfg env sendTo =
     (let useTor = list_ex (shouldUseTor cfg) sendTo
      in case smtpTarget cfg env sendTo of
           (evs, relay, port) \<Rightarrow>
             let serverAddr = relay @ '':'' @ itoa port
             in case Tor cfg of
                  None \<Rightarrow> (evs, Panic)
                | Some tor \<Rightarrow>
                    let timeout = dialTimeout tor
                    in case (if useTor then dialThroughTor cfg env serverAddr
                             else ([EvDialTimeout serverAddr timeout],
                                   Return (net_DialTimeout env serverAddr timeout))) of
                         (dial, Panic) \<Rightarrow> (evs @ dial, Panic)
                       | (dial, Return (Some err)) \<Rightarrow> (evs @ dial, Return (Inl err))
                       | (dial, Return None) \<Rightarrow>
                           (case smtp_NewClient env relay of
                              Some err \<Rightarrow>
                                (evs @ dial @ [EvNewClient relay], Return (Inl err))
                            | None \<Rightarrow>
                                (evs @ dial @ [EvNewClient relay], Return (Inr relay))))"

text \<open>
  A sequence of client calls, each with the answer of the server: the first error ends
  the sequence and is the result, as each \<open>if err != nil { return }\<close> does.
\<close>

fun runSteps :: "(event \<times> error option) list \<Rightarrow> event list \<times> error option" where
  "runSteps [] = ([], None)"
| "runSteps ((ev, Some err) # rest) = ([ev], Some err)"
| "runSteps ((ev, None) # rest) = (case runSteps rest of (evs, r) \<Rightarrow> (ev # evs, r))"

text \<open>
  The second part of \<open>smtpRelay\<close>, the session on the client: STARTTLS when the server
  offers it and \<open>shouldUseTLS\<close> holds, authentication when the server offers it and both
  credentials are set, the sender, each recipient, and the data.
\<close>

definition shouldUseTLS :: "Config \<Rightarrow> string \<Rightarrow> bool" where
  "shouldUseTLS cfg relay =
     (if Contains relay ''.onion'' \<and> DisableTLSOnion (Mail cfg) then False
      else UseTLS (Mail cfg))"

definition smtpSession :: "Config \<Rightarrow> env \<Rightarrow> string \<Rightarrow> string \<Rightarrow> string list
    \<Rightarrow> event list \<times> error option" where
  "smtpSession cfg env relay payload sendTo =
     (let tls = (smtp_Extension env False ''STARTTLS'' \<and> shouldUseTLS cfg relay);
          sender = (if Sender (Mail cfg) = [] then RemailerAddress (Remailer cfg)
                    else Sender (Mail cfg))
      in runSteps
           ((if tls then [(EvStartTLS, smtp_StartTLS env)] else [])
            @ (if smtp_Extension env tls ''AUTH''
                  \<and> Username (Mail cfg) \<noteq> [] \<and> Password (Mail cfg) \<noteq> []
               then [(EvAuth (Username (Mail cfg)) (Password (Mail cfg)) (SMTPRelay (Mail cfg)),
                      smtp_Auth env (Username (Mail cfg)) (Password (Mail cfg))
                        (SMTPRelay (Mail cfg)))]
               else [])
            @ [(EvMail sender, smtp_Mail env sender)]
            @ map (\<lambda>addr. (EvRcpt addr, smtp_Rcpt env addr)) sendTo
            @ [(EvData, smtp_Data env),
               (EvWrite payload, smtp_Write env payload),
               (EvCloseData, smtp_Close env)]))"

text \<open>The deferred \<open>client.Quit()\<close> runs when the session part is left, on every path.\<close>

definition smtpRelay :: "Config \<Rightarrow> env \<Rightarrow> string \<Rightarrow> string list \<Rightarrow> error option run" where
  "smtpRelay cfg env payload sendTo =
     (case smtpConnect cfg env sendTo of
        (evs, Panic) \<Rightarrow> (evs, Panic)
      | (evs, Return (Inl err)) \<Rightarrow> (evs, Return (Some err))
      | (evs, Return (Inr relay)) \<Rightarrow>
          (case smtpSession cfg env relay payload sendTo of
             (session, r) \<Rightarrow> (evs @ session @ [EvQuit], Return r)))"

subsection \<open>The other sinks and mailBytes\<close>

definition sendmail :: "Config \<Rightarrow> env \<Rightarrow> string \<Rightarrow> string list \<Rightarrow> error option run" where
  "sendmail cfg env payload sendTo =
     (let relay = SMTPRelay (Mail cfg) @ '':'' @ itoa (SMTPPort (Mail cfg))
      in ([EvSendMail relay (RemailerAddress (Remailer cfg)) sendTo payload],
          Return (smtp_SendMail env relay (RemailerAddress (Remailer cfg)) sendTo payload)))"

definition sendmailTor :: "Config \<Rightarrow> env \<Rightarrow> string \<Rightarrow> string list \<Rightarrow> error option run" where
  "sendmailTor cfg env payload sendTo =
     (case Tor cfg of
        None \<Rightarrow> sendmail cfg env payload sendTo
      | Some tor \<Rightarrow>
          if \<not> Enabled tor then sendmail cfg env payload sendTo
          else smtpRelay cfg env payload sendTo)"

text \<open>\<open>execSend\<close> hands the payload to an external command; what the command does, and
  the panic of \<open>sendmail.Args[0]\<close> on a command line without a field, are the
  environment's answer.\<close>

definition execSend :: "env \<Rightarrow> string \<Rightarrow> string \<Rightarrow> error option run" where
  "execSend env payload execCmd = ([EvExec execCmd payload], exec_Run env execCmd payload)"

definition mailBytes :: "Config \<Rightarrow> env \<Rightarrow> string \<Rightarrow> string list \<Rightarrow> error option run" where
  "mailBytes cfg env payload sendTo =
     (case (if Outfile (Mail cfg) then
              let filename = randPoolFilename env ''outfile-''
              in case os_Create env filename of
                   Some err \<Rightarrow> ([EvCreate filename], Return (Some err))
                 | None \<Rightarrow>
                     ([EvCreate filename, EvWriteString filename payload, EvClose filename],
                      Return (file_WriteString env filename payload))
            else if Pipe (Mail cfg) \<noteq> [] then execSend env payload (Pipe (Mail cfg))
            else if Sendmail (Mail cfg) then sendmailTor cfg env payload sendTo
            else smtpRelay cfg env payload sendTo) of
        (evs, r) \<Rightarrow> (EvMailBytes payload sendTo # evs, r))"

subsection \<open>mailPoolFile\<close>

text \<open>
  The second half of \<open>mailPoolFile\<close>, from "Add required headers" on: it is reached
  with the header as the first half left it. The file is open, so the deferred
  \<open>f.Close()\<close> ends every path, a panic of the sink included.
\<close>

definition mailPoolFile_send :: "Config \<Rightarrow> env \<Rightarrow> string \<Rightarrow> Message \<Rightarrow> Header
    \<Rightarrow> (bool \<times> error option) run" where
  "mailPoolFile_send cfg env filename msg hdr0 =
     (let hdr1 = hdr0(''Date'' \<mapsto> [time_Now_Format env rfc5322date]);
          hdr2 = hdr1(''Message-Id'' \<mapsto> [messageID env]);
          hdr3 = hdr2(''From'' \<mapsto> parseFrom cfg env hdr2);
          sendTo = headToAddy env hdr3 ''To'' @ headToAddy env hdr3 ''Cc''
      in if length sendTo = 0
         then ([EvOpen filename, EvClose filename],
               Return (True, Some (NoRecipients filename)))
         else
           (case mailBytes cfg env (assemble env (msg\<lparr>Header := hdr3\<rparr>)) sendTo of
              (evs, Panic) \<Rightarrow> (EvOpen filename # evs @ [EvClose filename], Panic)
            | (evs, Return err) \<Rightarrow>
                (EvOpen filename # evs @ [EvClose filename], Return (False, err))))"

definition mailPoolFile :: "Config \<Rightarrow> env \<Rightarrow> string \<Rightarrow> (bool \<times> error option) run" where
  "mailPoolFile cfg env filename =
     (case os_Open env filename of
        Inl err \<Rightarrow> ([EvOpen filename], Return (False, Some err))
      | Inr f \<Rightarrow>
          (case mail_ReadMessage env f of
             Inl err \<Rightarrow> ([EvOpen filename, EvClose filename], Return (True, Some err))
           | Inr msg \<Rightarrow>
               let pooledHeader = Get (Header msg) ''Yamn-Pooled-Date''
               in if pooledHeader = [] then mailPoolFile_send cfg env filename msg (Header msg)
                  else
                    (case time_Parse env shortdate pooledHeader of
                       Inl err \<Rightarrow>
                         ([EvOpen filename, EvClose filename], Return (False, Some err))
                     | Inr pooledDate \<Rightarrow>
                         let age = daysAgo env pooledDate
                         in if age > MaxAge (Pool cfg)
                            then ([EvOpen filename, EvClose filename], Return (True, None))
                            else mailPoolFile_send cfg env filename msg
                                   ((Header msg)(''Yamn-Pooled-Date'' := None)))))"

subsection \<open>Reading a message back\<close>

text \<open>
  \<open>mail.ReadMessage\<close> as package net/mail defines it, on the bytes of its reader: the
  header lines up to the first blank line, then the body. Blanks are the space and the
  tab.
\<close>

definition isBlank :: "char \<Rightarrow> bool" where
  "isBlank c = (c = CHR '' '' \<or> c = CHR 0x09)"

text \<open>\<open>trim\<close> of net/textproto: without the blanks at both ends.\<close>

definition trim :: "string \<Rightarrow> string" where
  "trim s = rev (dropWhile isBlank (rev (dropWhile isBlank s)))"

text \<open>\<open>strings.Cut(s, sep)\<close> for a separator of one byte.\<close>

definition Cut :: "string \<Rightarrow> char \<Rightarrow> (string \<times> string) option" where
  "Cut s sep =
     (if sep \<in> set s
      then Some (takeWhile (\<lambda>c. c \<noteq> sep) s, tl (dropWhile (\<lambda>c. c \<noteq> sep) s))
      else None)"

text \<open>
  One line of the input, without its end (\<open>\n\<close> or \<open>\r\n\<close>), and what follows it;
  \<open>None\<close> at the end of the input.
\<close>

definition readLine :: "string \<Rightarrow> (string \<times> string) option" where
  "readLine s =
     (if s = [] then None
      else
        let line = takeWhile (\<lambda>c. c \<noteq> CHR 0x0A) s;
            rest = drop (Suc (length line)) s
        in Some (if length line < length s \<and> line \<noteq> [] \<and> last line = CHR 0x0D
                 then butlast line else line,
                 rest))"

text \<open>
  The continuation lines of \<open>readContinuedLineSlice\<close>: while the next line starts with
  a blank, its leading blanks are skipped and a space and the trimmed line are added.
\<close>

function readContinued :: "string \<Rightarrow> string \<Rightarrow> string \<times> string" where
  "readContinued buf s =
     (case s of
        [] \<Rightarrow> (buf, s)
      | c # _ \<Rightarrow>
          if isBlank c then
            (case readLine (dropWhile isBlank s) of
               None \<Rightarrow> (buf @ '' '', dropWhile isBlank s)
             | Some (line, rest) \<Rightarrow> readContinued (buf @ '' '' @ trim line) rest)
          else (buf, s))"
  by pat_completeness auto

lemma readLine_shorter:
  "readLine s = Some (line, rest) \<Longrightarrow> length rest < length s"
  by (auto simp: readLine_def Let_def split: if_splits)

termination readContinued
proof (relation "measure (\<lambda>(buf, s). length s)")
  show "wf (measure (\<lambda>(buf, s). length s))" by simp
next
  fix buf s :: string and c :: char and cs :: string and x :: "string \<times> string"
    and line rest :: string
  assume "readLine (dropWhile isBlank s) = Some x" and "(line, rest) = x"
  then have "readLine (dropWhile isBlank s) = Some (line, rest)" by simp
  then have "length rest < length (dropWhile isBlank s)"
    by (rule readLine_shorter)
  also have "\<dots> \<le> length s" by (rule length_dropWhile_le)
  finally show "((buf @ '' '' @ trim line, rest), (buf, s)) \<in> measure (\<lambda>(buf, s). length s)"
    by simp
qed

declare readContinued.simps [simp del]

lemma readContinued_shorter: "length (snd (readContinued buf s)) \<le> length s"
proof (induction buf s rule: readContinued.induct)
  case (1 buf s)
  show ?case
  proof (cases s)
    case Nil
    then show ?thesis by (simp add: readContinued.simps)
  next
    case (Cons c cs)
    show ?thesis
    proof (cases "isBlank c")
      case False
      with Cons show ?thesis by (simp add: readContinued.simps)
    next
      case True
      show ?thesis
      proof (cases "readLine (dropWhile isBlank s)")
        case None
        with Cons True have "snd (readContinued buf s) = dropWhile isBlank s"
          by (subst readContinued.simps) simp
        then show ?thesis by (simp add: length_dropWhile_le)
      next
        case (Some x)
        obtain line rest where x: "x = (line, rest)" by (cases x)
        with Some have r: "readLine (dropWhile isBlank s) = Some (line, rest)" by simp
        from Cons True r have "readContinued buf s = readContinued (buf @ '' '' @ trim line) rest"
          by (subst readContinued.simps) simp
        moreover have "length (snd (readContinued (buf @ '' '' @ trim line) rest)) \<le> length rest"
          using "1.IH" [OF Cons True r refl] .
        moreover have "length rest < length (dropWhile isBlank s)"
          using r by (rule readLine_shorter)
        moreover have "length (dropWhile isBlank s) \<le> length s"
          by (rule length_dropWhile_le)
        ultimately show ?thesis by simp
      qed
    qed
  qed
qed

text \<open>
  The loop of \<open>readHeader\<close>: it ends at a blank line or at the end of the input, fails on
  a line without a colon, skips a line with an empty key, and appends the value, without
  its leading blanks, to the values of the canonical key. The map under construction is
  kept as an association list, so that \<open>len(hdr) == 0\<close> can be computed.
\<close>

function readHeaderLoop :: "(string \<times> string list) list \<Rightarrow> string
    \<Rightarrow> error option \<times> (string \<times> string list) list \<times> string" where
  "readHeaderLoop m s =
     (case readLine s of
        None \<Rightarrow> (Some EOF, m, [])
      | Some (line, rest) \<Rightarrow>
          if line = [] then (None, m, rest)
          else
            (case readContinued (trim line) rest of
               (kv, rest') \<Rightarrow>
                 if kv = [] then (None, m, rest')
                 else
                   (case Cut kv CHR '':'' of
                      None \<Rightarrow> (Some (MalformedHeaderLine kv), m, rest')
                    | Some (k, v) \<Rightarrow>
                        let key = CanonicalMIMEHeaderKey k
                        in if key = [] then readHeaderLoop m rest'
                           else readHeaderLoop
                                  (AList.update key
                                     ((case map_of m key of None \<Rightarrow> [] | Some vs \<Rightarrow> vs)
                                      @ [dropWhile isBlank v]) m)
                                  rest')))"
  by pat_completeness auto

lemma readHeaderLoop_shorter:
  assumes "readLine s = Some x" and "(line, rest) = x"
    and "(kv, rest') = readContinued (trim line) rest"
  shows "length rest' < length s"
proof -
  from assms(1,2) have "readLine s = Some (line, rest)" by simp
  then have "length rest < length s" by (rule readLine_shorter)
  moreover from assms(3) have "rest' = snd (readContinued (trim line) rest)"
    by (metis snd_conv)
  ultimately show ?thesis
    using readContinued_shorter [of "trim line" rest] by simp
qed

termination readHeaderLoop
proof (relation "measure (\<lambda>(m, s). length s)")
  show "wf (measure (\<lambda>(m, s). length s))" by simp
next
  fix m :: "(string \<times> string list) list" and s line rest kv rest' :: string
    and x :: "string \<times> string"
  assume "readLine s = Some x" and "(line, rest) = x"
    and "(kv, rest') = readContinued (trim line) rest"
  then have "length rest' < length s" by (rule readHeaderLoop_shorter)
  then show "((m, rest'), (m, s)) \<in> measure (\<lambda>(m, s). length s)" by simp
next
  fix m :: "(string \<times> string list) list" and s line rest kv rest' v key :: string
    and x :: "string \<times> string"
  assume "readLine s = Some x" and "(line, rest) = x"
    and "(kv, rest') = readContinued (trim line) rest"
  then have "length rest' < length s" by (rule readHeaderLoop_shorter)
  then show "((AList.update key
                 ((case map_of m key of None \<Rightarrow> [] | Some vs \<Rightarrow> vs) @ [dropWhile isBlank v]) m,
               rest'), (m, s)) \<in> measure (\<lambda>(m, s). length s)"
    by simp
qed

declare readHeaderLoop.simps [simp del]

text \<open>
  \<open>readHeader\<close> refuses a first line that starts with a blank; \<open>ReadMessage\<close> accepts
  the end of the input in place of the blank line when a header was read.
\<close>

definition readHeader :: "string \<Rightarrow> error option \<times> (string \<times> string list) list \<times> string" where
  "readHeader s =
     (case s of
        [] \<Rightarrow> readHeaderLoop [] s
      | c # _ \<Rightarrow>
          if isBlank c
          then (Some (MalformedInitialLine
                        (case readLine s of Some (line, _) \<Rightarrow> line | None \<Rightarrow> [])),
                [], [])
          else readHeaderLoop [] s)"

definition ReadMessage :: "string \<Rightarrow> error + Message" where
  "ReadMessage s =
     (case readHeader s of
        (None, hdr, rest) \<Rightarrow> Inr \<lparr>Header = map_of hdr, Body = rest\<rparr>
      | (Some err, hdr, rest) \<Rightarrow>
          if err \<noteq> EOF \<or> length hdr = 0 then Inl err
          else Inr \<lparr>Header = map_of hdr, Body = rest\<rparr>)"


text \<open>
  A header name as \<open>ReadMessage\<close> yields it: not empty, no blank in front, no colon
  and no line feed, and in canonical form. And a value that is read back as it is
  written: no line feed, and when not empty no blank at either end and no carriage
  return at the end; \<open>ReadMessage\<close> yields such values, except after an empty
  continuation line or a carriage return that is not part of a line end.
\<close>

definition parsedKey :: "string \<Rightarrow> bool" where
  "parsedKey k =
     (k \<noteq> [] \<and> \<not> isBlank (hd k) \<and> CHR '':'' \<notin> set k \<and> CHR 0x0A \<notin> set k
      \<and> CanonicalMIMEHeaderKey k = k)"

definition parsedValue :: "string \<Rightarrow> bool" where
  "parsedValue v =
     (CHR 0x0A \<notin> set v
      \<and> (v = [] \<or> (\<not> isBlank (hd v) \<and> \<not> isBlank (last v) \<and> last v \<noteq> CHR 0x0D)))"

subsection \<open>A configuration and an environment for the examples\<close>

text \<open>
  A remailer with the anonymizing transport enabled, MX relaying on, onion relays off,
  a pool age of 30 days, and an environment in which every call succeeds. The spooled
  message is addressed to one recipient and was pooled on day 100; today is day 110.
\<close>

definition example_cfg :: Config where
  "example_cfg =
     \<lparr>Mail = \<lparr>Outfile = False, Pipe = [], Sendmail = False,
              SMTPRelay = ''relay.example.net'', SMTPPort = 587, MXRelay = True,
              OnionRelay = False, ForceTorSMTP = False, UseTLS = True,
              DisableTLSOnion = True, Username = [], Password = [], Sender = [],
              OutboundName = ''Anonymous'', OutboundAddy = ''remailer@example.net'',
              CustomFrom = False\<rparr>,
      Tor = Some \<lparr>Enabled = True, SocksProxy = [], Timeout = 0\<rparr>,
      Pool = \<lparr>MaxAge = 30\<rparr>,
      Remailer = \<lparr>RemailerAddress = ''remailer@example.net''\<rparr>\<rparr>"

definition example_msg :: Message where
  "example_msg =
     \<lparr>Header = [''To'' \<mapsto> [''user@example.org''], ''Subject'' \<mapsto> [''hello''],
                 ''Yamn-Pooled-Date'' \<mapsto> [''10 Apr 2024'']],
      Body = ''text''\<rparr>"

definition example_env :: env where
  "example_env =
     \<lparr>os_Open = (\<lambda>filename. Inr ''spooled''),
      mail_ReadMessage = (\<lambda>f. Inr example_msg),
      time_Parse = (\<lambda>layout v. if v = ''10 Apr 2024'' then Inr 100
                                else Inl (External ''cannot parse'')),
      time_Now_Format = (\<lambda>layout. ''Sat, 20 Apr 2024 12:00:00 +0000''),
      mail_ParseAddressList =
        (\<lambda>v. if v = ''user@example.org''
              then Inr [\<lparr>Name = [], Address = ''user@example.org''\<rparr>]
              else Inl (External ''no address'')),
      range_order =
        (\<lambda>h. filter (\<lambda>k. h k \<noteq> None)
               [''Date'', ''From'', ''Message-Id'', ''Subject'', ''To'',
                ''Yamn-Pooled-Date'']),
      net_LookupMX =
        (\<lambda>d. ([\<lparr>Host = ''hidden.onion.'', Pref = 5\<rparr>,
                \<lparr>Host = ''mx1.example.org.'', Pref = 10\<rparr>,
                \<lparr>Host = ''mx2.example.org.'', Pref = 20\<rparr>], None)),
      url_Parse = (\<lambda>u. None),
      proxy_FromURL = (\<lambda>u. None),
      proxy_DialContext = (\<lambda>p a t. None),
      net_DialTimeout = (\<lambda>a t. None),
      smtp_NewClient = (\<lambda>r. None),
      smtp_Extension = (\<lambda>tls e. e = ''STARTTLS''),
      smtp_StartTLS = None,
      smtp_Auth = (\<lambda>u p h. None),
      smtp_Mail = (\<lambda>s. None),
      smtp_Rcpt = (\<lambda>a. None),
      smtp_Data = None,
      smtp_Write = (\<lambda>p. None),
      smtp_Close = None,
      smtp_SendMail = (\<lambda>r f t p. None),
      os_Create = (\<lambda>f. None),
      file_WriteString = (\<lambda>f p. None),
      exec_Run = (\<lambda>c p. Return None),
      daysAgo = (\<lambda>t. 110 - t),
      messageID = ''<1@example.net>'',
      randPoolFilename = (\<lambda>p. p @ ''0001'')\<rparr>"

text \<open>The same spool file holding a message without a pooled date and without
  recipients.\<close>

definition example_msg_bare :: Message where
  "example_msg_bare = \<lparr>Header = [''Subject'' \<mapsto> [''hello'']], Body = ''text''\<rparr>"

definition example_env_bare :: env where
  "example_env_bare = example_env\<lparr>mail_ReadMessage := (\<lambda>f. Inr example_msg_bare)\<rparr>"

text \<open>A message whose \<open>To\<close> header was given on two lines.\<close>

definition example_msg_two :: Message where
  "example_msg_two = \<lparr>Header = [''To'' \<mapsto> [''a@x.org'', ''b@y.org'']], Body = ''text''\<rparr>"




section \<open>Properties\<close>

subsection \<open>Strings\<close>

lemma HasPrefix_iff: "HasPrefix s p \<longleftrightarrow> (\<exists>t. s = p @ t)"
  by (induction s p rule: HasPrefix.induct) auto


lemma Contains_iff: "Contains s sub \<longleftrightarrow> (\<exists>a b. s = a @ sub @ b)"
proof (induction s)
  case Nil
  then show ?case by auto
next
  case (Cons c cs)
  show ?case
  proof
    assume "Contains (c # cs) sub"
    then consider "HasPrefix (c # cs) sub" | "Contains cs sub" by auto
    then show "\<exists>a b. c # cs = a @ sub @ b"
    proof cases
      case 1
      then obtain t where "c # cs = sub @ t" by (auto simp: HasPrefix_iff)
      then have "c # cs = [] @ sub @ t" by simp
      then show ?thesis by blast
    next
      case 2
      then obtain a b where "cs = a @ sub @ b" using Cons.IH by auto
      then have "c # cs = (c # a) @ sub @ b" by simp
      then show ?thesis by blast
    qed
  next
    assume "\<exists>a b. c # cs = a @ sub @ b"
    then obtain a b where ab: "c # cs = a @ sub @ b" by auto
    show "Contains (c # cs) sub"
    proof (cases a)
      case Nil
      with ab have "HasPrefix (c # cs) sub" by (auto simp: HasPrefix_iff)
      then show ?thesis by simp
    next
      case (Cons x a')
      with ab have "cs = a' @ sub @ b" by simp
      then have "Contains cs sub" using Cons.IH by auto
      then show ?thesis by simp
    qed
  qed
qed

lemma Contains_char: "Contains s [c] \<longleftrightarrow> c \<in> set s"
  by (induction s) auto



lemma Contains_append: "Contains b sub \<Longrightarrow> Contains (a @ b) sub"
proof -
  assume "Contains b sub"
  then obtain x y where "b = x @ sub @ y" by (auto simp: Contains_iff)
  then have "a @ b = (a @ x) @ sub @ y" by simp
  then show ?thesis unfolding Contains_iff by blast
qed

lemma Split_no_sep: "sep \<notin> set s \<Longrightarrow> Split s sep = [s]"
proof -
  assume "sep \<notin> set s"
  then have d: "dropWhile (\<lambda>c. c \<noteq> sep) s = []" by auto
  show ?thesis by (subst Split.simps, subst d, simp)
qed

lemma Split_cut:
  "sep \<notin> set a \<Longrightarrow> Split (a @ sep # b) sep = a # Split b sep"
proof -
  assume h: "sep \<notin> set a"
  then have d: "dropWhile (\<lambda>c. c \<noteq> sep) (a @ sep # b) = sep # b"
    by (auto simp: dropWhile_append3)
  from h have t: "takeWhile (\<lambda>c. c \<noteq> sep) (a @ sep # b) = a"
    by (auto simp: takeWhile_tail)
  show ?thesis by (subst Split.simps, subst d, subst t, simp)
qed

lemma length_Split: "length (Split s sep) = Suc (count_list s sep)"
proof (induction s sep rule: Split.induct)
  case (1 s sep)
  show ?case
  proof (cases "sep \<in> set s")
    case False
    then show ?thesis by (simp add: Split_no_sep)
  next
    case True
    then obtain a b where s: "s = a @ sep # b" and a: "sep \<notin> set a"
      by (meson split_list_first)
    from a have d: "dropWhile (\<lambda>c. c \<noteq> sep) s = sep # b"
      unfolding s by (auto simp: dropWhile_append3)
    have "length (Split b sep) = Suc (count_list b sep)"
      using "1.IH" [OF d] .
    moreover have "count_list a sep = 0" using a by (simp add: count_list_0_iff)
    ultimately show ?thesis
      unfolding s by (simp add: Split_cut [OF a])
  qed
qed


lemma count_list_one_split:
  assumes "count_list s c = 1"
  shows "\<exists>a b. s = a @ c # b \<and> c \<notin> set a \<and> c \<notin> set b"
proof -
  from assms have "c \<in> set s"
    by (metis count_list_0_iff zero_neq_one)
  then obtain a b where s: "s = a @ c # b" and a: "c \<notin> set a"
    by (meson split_list_first)
  from a have "count_list a c = 0" by (simp add: count_list_0_iff)
  with assms s have "count_list b c = 0" by simp
  then have "c \<notin> set b" by (simp add: count_list_0_iff)
  with s a show ?thesis by blast
qed

lemma splitEmailAddress_no_at:
  "count_list addy CHR ''@'' = 0 \<Longrightarrow> splitEmailAddress addy = Inl (NoAtSign addy)"
  by (simp add: splitEmailAddress_def Contains_char count_list_0_iff)

lemma splitEmailAddress_many_at:
  assumes "1 < count_list addy CHR ''@''"
  shows "splitEmailAddress addy = Inl (MalformedAddress addy)"
proof -
  from assms have "CHR ''@'' \<in> set addy"
    by (metis count_list_0_iff not_less_zero)
  moreover from assms have "length (Split addy CHR ''@'') \<noteq> 2"
    by (simp add: length_Split)
  ultimately show ?thesis
    by (simp add: splitEmailAddress_def Contains_char Let_def)
qed

lemma splitEmailAddress_cut:
  assumes "CHR ''@'' \<notin> set n" and "CHR ''@'' \<notin> set d"
  shows "splitEmailAddress (n @ CHR ''@'' # d) = Inr \<lparr>name = n, domain = d\<rparr>"
proof -
  have "Split (n @ CHR ''@'' # d) CHR ''@'' = [n, d]"
    using assms by (simp add: Split_cut Split_no_sep)
  then show ?thesis
    by (simp add: splitEmailAddress_def Contains_char Let_def)
qed

lemma count_at_cases:
  "count_list addy CHR ''@'' = 0 \<or> count_list addy CHR ''@'' = 1 \<or> 1 < count_list addy CHR ''@''"
  by linarith

lemma splitEmailAddress_one:
  assumes "count_list addy CHR ''@'' = 1"
  shows "\<exists>n d. splitEmailAddress addy = Inr \<lparr>name = n, domain = d\<rparr>
           \<and> addy = n @ ''@'' @ d \<and> CHR ''@'' \<notin> set n \<and> CHR ''@'' \<notin> set d"
proof -
  from count_list_one_split [OF assms]
  obtain n d where s: "addy = n @ CHR ''@'' # d"
    and n: "CHR ''@'' \<notin> set n" and d: "CHR ''@'' \<notin> set d"
    by (elim exE conjE)
  have "splitEmailAddress addy = Inr \<lparr>name = n, domain = d\<rparr>"
    unfolding s by (rule splitEmailAddress_cut [OF n d])
  moreover have "addy = n @ ''@'' @ d" using s by simp
  ultimately show ?thesis using n d by (intro exI conjI)
qed


lemma isl_splitEmailAddress:
  "isl (splitEmailAddress addy) \<longleftrightarrow> count_list addy CHR ''@'' \<noteq> 1"
proof (cases "count_list addy CHR ''@'' = 1")
  case True
  from splitEmailAddress_one [OF True]
  obtain e where "splitEmailAddress addy = Inr e" by (elim exE conjE)
  then have "\<not> isl (splitEmailAddress addy)" by simp
  with True show ?thesis by simp
next
  case False
  with count_at_cases [of addy]
  have "count_list addy CHR ''@'' = 0 \<or> 1 < count_list addy CHR ''@''" by simp
  then have "isl (splitEmailAddress addy)"
  proof
    assume "count_list addy CHR ''@'' = 0"
    then show ?thesis by (simp add: splitEmailAddress_no_at)
  next
    assume "1 < count_list addy CHR ''@''"
    then show ?thesis by (simp add: splitEmailAddress_many_at)
  qed
  with False show ?thesis by simp
qed

subsection \<open>The address parser\<close>

text \<open>
  C8. \<open>splitEmailAddress\<close> fails exactly when the address has no \<open>@\<close> or more than
  one: with none the error is the "contains no '@'" one, with several the "Malformed
  email address" one. With exactly one \<open>@\<close> it returns the text before the separator
  as the local part and the text after it as the domain. The function is pure: it reads
  nothing but its argument and its result is all it produces.
\<close>

theorem splitEmailAddress_exactly_one_at:
  "(isl (splitEmailAddress addy) \<longleftrightarrow> count_list addy CHR ''@'' \<noteq> 1)
   \<and> (count_list addy CHR ''@'' = 0 \<longrightarrow> splitEmailAddress addy = Inl (NoAtSign addy))
   \<and> (1 < count_list addy CHR ''@'' \<longrightarrow>
        splitEmailAddress addy = Inl (MalformedAddress addy))
   \<and> (count_list addy CHR ''@'' = 1 \<longrightarrow>
        (\<exists>n d. splitEmailAddress addy = Inr \<lparr>name = n, domain = d\<rparr>
           \<and> addy = n @ ''@'' @ d
           \<and> CHR ''@'' \<notin> set n \<and> CHR ''@'' \<notin> set d))"
  using isl_splitEmailAddress splitEmailAddress_no_at splitEmailAddress_many_at
    splitEmailAddress_one
  by (intro conjI impI)

theorem splitEmailAddress_exactly_one_at_witness:
  "count_list ''nobody'' CHR ''@'' = 0
   \<and> splitEmailAddress ''nobody'' = Inl (NoAtSign ''nobody'')
   \<and> 1 < count_list ''a@b@c'' CHR ''@''
   \<and> splitEmailAddress ''a@b@c'' = Inl (MalformedAddress ''a@b@c'')
   \<and> count_list ''user@foo.onion'' CHR ''@'' = 1
   \<and> \<not> isl (splitEmailAddress ''user@foo.onion'')"
proof -
  have 0: "count_list ''nobody'' CHR ''@'' = 0" by simp
  have 2: "1 < count_list ''a@b@c'' CHR ''@''" by simp
  have 1: "count_list ''user@foo.onion'' CHR ''@'' = 1" by simp
  note t0 = splitEmailAddress_exactly_one_at [of "''nobody''"]
  note t2 = splitEmailAddress_exactly_one_at [of "''a@b@c''"]
  note t1 = splitEmailAddress_exactly_one_at [of "''user@foo.onion''"]
  have a: "splitEmailAddress ''nobody'' = Inl (NoAtSign ''nobody'')"
    using t0 [THEN conjunct2, THEN conjunct1] 0 by (rule mp)
  have b: "splitEmailAddress ''a@b@c'' = Inl (MalformedAddress ''a@b@c'')"
    using t2 [THEN conjunct2, THEN conjunct2, THEN conjunct1] 2 by (rule mp)
  have c: "\<not> isl (splitEmailAddress ''user@foo.onion'')"
    using t1 [THEN conjunct1] 1 by simp
  from 0 a 2 b 1 c show ?thesis by (intro conjI)
qed

lemma splitEmailAddress_example:
  "splitEmailAddress ''user@foo.onion'' = Inr \<lparr>name = ''user'', domain = ''foo.onion''\<rparr>"
  by code_simp

subsection \<open>The transport policy\<close>

theorem shouldUseTor_domain_rule_counterexample:
  "splitEmailAddress ''a.onion@x.com'' = Inr \<lparr>name = ''a.onion'', domain = ''x.com''\<rparr>
   \<and> \<not> Contains ''x.com'' ''.onion''
   \<and> \<not> ForceTorSMTP (Mail example_cfg)
   \<and> shouldUseTor example_cfg ''a.onion@x.com''"
  by code_simp

text \<open>
  C2 (amended). \<open>shouldUseTor\<close> applies its rules in this order: false when \<open>cfg.Tor\<close>
  is nil or not enabled, whatever the address; else true when the address string contains
  \<open>.onion\<close> anywhere, in the domain or in the local part; else true when
  \<open>ForceTorSMTP\<close> is set; else false. In particular a well-formed address whose domain
  contains \<open>.onion\<close> uses the anonymizing transport whenever it is enabled, whatever
  \<open>OnionRelay\<close> and \<open>ForceTorSMTP\<close> are. The example above shows why the rule
  cannot be stated on the domain alone: \<open>a.onion@x.com\<close> is routed through Tor.
\<close>

theorem shouldUseTor_rules:
  "shouldUseTor cfg address =
     (case Tor cfg of
        None \<Rightarrow> False
      | Some tor \<Rightarrow>
          if \<not> Enabled tor then False
          else if Contains address ''.onion'' then True
          else ForceTorSMTP (Mail cfg))
   \<and> ((Tor cfg = None \<or> (\<exists>tor. Tor cfg = Some tor \<and> \<not> Enabled tor))
          \<longrightarrow> \<not> shouldUseTor cfg address)
   \<and> (\<forall>tor e. Tor cfg = Some tor \<and> Enabled tor \<and> splitEmailAddress address = Inr e
          \<and> Contains (domain e) ''.onion''
          \<longrightarrow> (\<forall>relay force.
                 shouldUseTor
                   (cfg\<lparr>Mail := (Mail cfg)\<lparr>OnionRelay := relay, ForceTorSMTP := force\<rparr>\<rparr>)
                   address))"
proof (intro conjI allI impI)
  show "shouldUseTor cfg address =
     (case Tor cfg of
        None \<Rightarrow> False
      | Some tor \<Rightarrow>
          if \<not> Enabled tor then False
          else if Contains address ''.onion'' then True
          else ForceTorSMTP (Mail cfg))"
    by (simp add: shouldUseTor_def split: option.splits)
next
  assume "Tor cfg = None \<or> (\<exists>tor. Tor cfg = Some tor \<and> \<not> Enabled tor)"
  then show "\<not> shouldUseTor cfg address"
    by (auto simp: shouldUseTor_def)
next
  fix tor e relay force
  assume h: "Tor cfg = Some tor \<and> Enabled tor \<and> splitEmailAddress address = Inr e
          \<and> Contains (domain e) ''.onion''"
  then have "count_list address CHR ''@'' = 1"
    using isl_splitEmailAddress [of address] by auto
  from splitEmailAddress_one [OF this] h
  obtain n where "address = n @ ''@'' @ domain e"
    by auto
  then have "address = (n @ ''@'') @ domain e" by simp
  then have "Contains address ''.onion''"
    using h Contains_append [of "domain e" "''.onion''" "n @ ''@''"] by simp
  with h show "shouldUseTor
       (cfg\<lparr>Mail := (Mail cfg)\<lparr>OnionRelay := relay, ForceTorSMTP := force\<rparr>\<rparr>) address"
    by (simp add: shouldUseTor_def)
qed

theorem shouldUseTor_rules_witness:
  "\<not> shouldUseTor (example_cfg\<lparr>Tor := None\<rparr>) ''user@foo.onion''
   \<and> splitEmailAddress ''user@foo.onion'' = Inr \<lparr>name = ''user'', domain = ''foo.onion''\<rparr>
   \<and> Contains ''foo.onion'' ''.onion''
   \<and> shouldUseTor example_cfg ''user@foo.onion''"
proof -
  have a: "Tor (example_cfg\<lparr>Tor := None\<rparr>) = None" by simp
  have b: "splitEmailAddress ''user@foo.onion'' = Inr \<lparr>name = ''user'', domain = ''foo.onion''\<rparr>"
    by (rule splitEmailAddress_example)
  have c: "Contains ''foo.onion'' ''.onion''" by code_simp
  have d: "Tor example_cfg = Some \<lparr>Enabled = True, SocksProxy = [], Timeout = 0\<rparr>"
    by (simp add: example_cfg_def)
  have e: "example_cfg\<lparr>Mail := (Mail example_cfg)\<lparr>OnionRelay := False, ForceTorSMTP := False\<rparr>\<rparr>
           = example_cfg"
    by (simp add: example_cfg_def)
  have "\<not> shouldUseTor (example_cfg\<lparr>Tor := None\<rparr>) ''user@foo.onion''"
    using shouldUseTor_rules [of "example_cfg\<lparr>Tor := None\<rparr>" "''user@foo.onion''"] a
    by blast
  moreover have "shouldUseTor
       (example_cfg\<lparr>Mail := (Mail example_cfg)\<lparr>OnionRelay := False, ForceTorSMTP := False\<rparr>\<rparr>)
       ''user@foo.onion''"
    using shouldUseTor_rules [of example_cfg "''user@foo.onion''"] b c d
    by simp
  ultimately show ?thesis using b c e by simp
qed

subsection \<open>The host resolver\<close>

text \<open>
  C3. For a well-formed address whose domain ends in \<open>.onion\<close>, \<open>mxLookup\<close> returns
  the domain itself with a nil error, and its run holds no event: DNS is not queried.
\<close>

theorem mxLookup_onion_no_dns:
  assumes "splitEmailAddress email = Inr e"
    and "HasSuffix (domain e) ''.onion''"
  shows "mxLookup cfg env email = ([], domain e, None)"
  using assms by (simp add: mxLookup_def)

theorem mxLookup_onion_no_dns_witness:
  "splitEmailAddress ''user@foo.onion'' = Inr \<lparr>name = ''user'', domain = ''foo.onion''\<rparr>
   \<and> HasSuffix ''foo.onion'' ''.onion''
   \<and> mxLookup example_cfg example_env ''user@foo.onion'' = ([], ''foo.onion'', None)"
proof -
  have a: "splitEmailAddress ''user@foo.onion''
           = Inr \<lparr>name = ''user'', domain = ''foo.onion''\<rparr>"
    by (rule splitEmailAddress_example)
  have b: "HasSuffix (domain \<lparr>name = ''user'', domain = ''foo.onion''\<rparr>) ''.onion''"
    by code_simp
  from mxLookup_onion_no_dns [OF a b, of example_cfg example_env] a b
  show ?thesis by simp
qed

text \<open>The record that ends the loop over the MX records is the first one that is
  not skipped, and the loop yields the empty string when there is none.\<close>

lemma mxLoop_filter:
  "mxLoop onionRelay recs =
     (case filter (\<lambda>mx. \<not> (\<not> onionRelay \<and> HasSuffix (Host mx) ''.onion.'')) recs of
        [] \<Rightarrow> []
      | mx # _ \<Rightarrow> Host mx)"
  by (induction recs) auto

lemma mxLookup_no_error:
  "splitEmailAddress email = Inr e \<Longrightarrow> snd (snd (mxLookup cfg env email)) = None"
  by (simp add: mxLookup_def Let_def split: prod.splits option.splits)

text \<open>
  C4. For a well-formed address whose domain does not end in \<open>.onion\<close>, \<open>mxLookup\<close>
  queries the MX records of the domain once and never returns an error. When the lookup
  fails the relay is the domain. When it succeeds, the records are taken in the order
  DNS gave them, a record whose host ends in \<open>.onion.\<close> (the form DNS returns, with the
  final dot) is skipped when \<open>OnionRelay\<close> is off, the relay is the host of the first
  record that is not skipped, and it is the domain when every record is skipped. Hosts
  returned by \<open>net.LookupMX\<close> are valid domain names, hence not empty.
\<close>

theorem mxLookup_dns_fallback:
  assumes "splitEmailAddress email = Inr e"
    and "\<not> HasSuffix (domain e) ''.onion''"
    and "net_LookupMX env (domain e) = (recs, r)"
    and "\<forall>mx \<in> set recs. Host mx \<noteq> []"
  shows "mxLookup cfg env email =
           ([EvLookupMX (domain e)],
            (if r \<noteq> None then domain e
             else case filter (\<lambda>mx. \<not> (\<not> OnionRelay (Mail cfg)
                                        \<and> HasSuffix (Host mx) ''.onion.'')) recs of
                    [] \<Rightarrow> domain e
                  | mx # _ \<Rightarrow> Host mx),
            None)"
proof (cases r)
  case (Some err)
  with assms show ?thesis by (simp add: mxLookup_def)
next
  case None
  let ?keep = "filter (\<lambda>mx. \<not> (\<not> OnionRelay (Mail cfg)
                                        \<and> HasSuffix (Host mx) ''.onion.'')) recs"
  have loop: "mxLoop (OnionRelay (Mail cfg)) recs =
     (case ?keep of [] \<Rightarrow> [] | mx # _ \<Rightarrow> Host mx)"
    by (rule mxLoop_filter)
  have relay: "(if mxLoop (OnionRelay (Mail cfg)) recs = [] then domain e
          else mxLoop (OnionRelay (Mail cfg)) recs)
        = (case ?keep of [] \<Rightarrow> domain e | mx # _ \<Rightarrow> Host mx)"
  proof (cases ?keep)
    case Nil
    with loop show ?thesis by simp
  next
    case (Cons mx rest)
    then have "mx \<in> set ?keep" by simp
    then have "mx \<in> set recs" by simp
    with assms(4) have "Host mx \<noteq> []" by blast
    with loop Cons show ?thesis by simp
  qed
  from assms None have "mxLookup cfg env email =
      ([EvLookupMX (domain e)],
       (if mxLoop (OnionRelay (Mail cfg)) recs = [] then domain e
          else mxLoop (OnionRelay (Mail cfg)) recs), None)"
    by (simp add: mxLookup_def Let_def)
  with relay None show ?thesis by simp
qed

theorem mxLookup_dns_fallback_witness:
  "splitEmailAddress ''user@example.org'' = Inr \<lparr>name = ''user'', domain = ''example.org''\<rparr>
   \<and> \<not> HasSuffix ''example.org'' ''.onion''
   \<and> mxLookup example_cfg example_env ''user@example.org''
       = ([EvLookupMX ''example.org''], ''mx1.example.org.'', None)
   \<and> mxLookup example_cfg
        (example_env\<lparr>net_LookupMX := (\<lambda>d. ([], Some (External ''no such host'')))\<rparr>)
        ''user@example.org''
       = ([EvLookupMX ''example.org''], ''example.org'', None)
   \<and> mxLookup example_cfg
        (example_env\<lparr>net_LookupMX := (\<lambda>d. ([\<lparr>Host = ''hidden.onion.'', Pref = 5\<rparr>], None))\<rparr>)
        ''user@example.org''
       = ([EvLookupMX ''example.org''], ''example.org'', None)"
proof -
  let ?e = "\<lparr>name = ''user'', domain = ''example.org''\<rparr>"
  let ?recs = "[\<lparr>Host = ''hidden.onion.'', Pref = 5\<rparr>,
                \<lparr>Host = ''mx1.example.org.'', Pref = 10\<rparr>,
                \<lparr>Host = ''mx2.example.org.'', Pref = 20\<rparr>]"
  let ?env2 = "example_env\<lparr>net_LookupMX := (\<lambda>d. ([], Some (External ''no such host'')))\<rparr>"
  let ?env3 = "example_env\<lparr>net_LookupMX := (\<lambda>d. ([\<lparr>Host = ''hidden.onion.'', Pref = 5\<rparr>], None))\<rparr>"
  have a: "splitEmailAddress ''user@example.org'' = Inr ?e"
    using splitEmailAddress_cut [of "''user''" "''example.org''"] by simp
  have b: "\<not> HasSuffix (domain ?e) ''.onion''" by code_simp
  have l1: "net_LookupMX example_env (domain ?e) = (?recs, None)"
    by (simp add: example_env_def)
  have h1: "\<forall>mx \<in> set ?recs. Host mx \<noteq> []" by simp
  have l2: "net_LookupMX ?env2 (domain ?e) = ([], Some (External ''no such host''))"
    by simp
  have h2: "\<forall>mx \<in> set ([] :: MX list). Host mx \<noteq> []" by simp
  have l3: "net_LookupMX ?env3 (domain ?e) = ([\<lparr>Host = ''hidden.onion.'', Pref = 5\<rparr>], None)"
    by simp
  have h3: "\<forall>mx \<in> set [\<lparr>Host = ''hidden.onion.'', Pref = 5\<rparr>]. Host mx \<noteq> []" by simp
  have o: "\<not> OnionRelay (Mail example_cfg)" by (simp add: example_cfg_def)
  have s1: "HasSuffix ''hidden.onion.'' ''.onion.''" by code_simp
  have s2: "\<not> HasSuffix ''mx1.example.org.'' ''.onion.''" by code_simp
  have r1: "mxLookup example_cfg example_env ''user@example.org''
       = ([EvLookupMX ''example.org''], ''mx1.example.org.'', None)"
    using mxLookup_dns_fallback [OF a b l1 h1, of example_cfg] o s1 s2 by simp
  have r2: "mxLookup example_cfg ?env2 ''user@example.org''
       = ([EvLookupMX ''example.org''], ''example.org'', None)"
    using mxLookup_dns_fallback [OF a b l2 h2, of example_cfg] by simp
  have r3: "mxLookup example_cfg ?env3 ''user@example.org''
       = ([EvLookupMX ''example.org''], ''example.org'', None)"
    using mxLookup_dns_fallback [OF a b l3 h3, of example_cfg] o s1 by simp
  from a b r1 r2 r3 show ?thesis by simp
qed

subsection \<open>The SMTP session\<close>

lemma runSteps_events: "set (fst (runSteps steps)) \<subseteq> fst ` set steps"
  by (induction steps rule: runSteps.induct) (auto split: prod.splits)


lemma mxLookup_events:
  "ev \<in> set (fst (mxLookup cfg env email)) \<Longrightarrow> \<exists>d. ev = EvLookupMX d"
  by (auto simp: mxLookup_def Let_def split: sum.splits if_splits prod.splits option.splits)

lemma smtpTarget_events:
  "ev \<in> set (fst (smtpTarget cfg env sendTo)) \<Longrightarrow> \<exists>d. ev = EvLookupMX d"
proof -
  assume h: "ev \<in> set (fst (smtpTarget cfg env sendTo))"
  show ?thesis
  proof (cases "MXRelay (Mail cfg) \<and> length sendTo = 1
            \<and> \<not> Contains (sendTo ! 0) ''.onion'' \<and> \<not> list_ex (shouldUseTor cfg) sendTo")
    case True
    obtain evs mx r where m: "mxLookup cfg env (sendTo ! 0) = (evs, mx, r)"
      by (cases "mxLookup cfg env (sendTo ! 0)") auto
    with True have "fst (smtpTarget cfg env sendTo) = evs"
      by (cases r) (simp_all add: smtpTarget_def)
    with h m have "ev \<in> set (fst (mxLookup cfg env (sendTo ! 0)))" by simp
    then show ?thesis by (rule mxLookup_events)
  next
    case False
    then have "fst (smtpTarget cfg env sendTo) = []"
      by (auto simp: smtpTarget_def)
    with h show ?thesis by simp
  qed
qed

lemma dialThroughTor_events:
  "ev \<in> set (fst (dialThroughTor cfg env a)) \<Longrightarrow>
     \<exists>p tor. ev = EvDialTor p a (dialTimeout tor) \<and> Tor cfg = Some tor"
  by (auto simp: dialThroughTor_def Let_def split: option.splits)


lemma smtpConnect_nil_Tor:
  "Tor cfg = None \<Longrightarrow>
     smtpConnect cfg env sendTo = (fst (smtpTarget cfg env sendTo), Panic)"
  by (simp add: smtpConnect_def Let_def split: prod.splits)

lemma smtpConnect_events:
  assumes "ev \<in> set (fst (smtpConnect cfg env sendTo))"
  shows "(\<exists>d. ev = EvLookupMX d)
         \<or> (\<exists>p a tor. ev = EvDialTor p a (dialTimeout tor) \<and> Tor cfg = Some tor)
         \<or> (\<exists>a tor. ev = EvDialTimeout a (dialTimeout tor) \<and> Tor cfg = Some tor)
         \<or> (\<exists>r. ev = EvNewClient r)"
proof -
  obtain evs relay port where t: "smtpTarget cfg env sendTo = (evs, relay, port)"
    by (cases "smtpTarget cfg env sendTo") auto
  have evs: "e \<in> set evs \<Longrightarrow> \<exists>d. e = EvLookupMX d" for e
    using smtpTarget_events [of e cfg env sendTo] t by simp
  show ?thesis
  proof (cases "Tor cfg")
    case None
    with assms t evs show ?thesis by (simp add: smtpConnect_nil_Tor)
  next
    case (Some tor)
    let ?addr = "relay @ '':'' @ itoa port"
    show ?thesis
    proof (cases "list_ex (shouldUseTor cfg) sendTo")
      case True
      obtain dial r where d: "dialThroughTor cfg env ?addr = (dial, r)"
        by (cases "dialThroughTor cfg env ?addr") auto
      have dial: "e \<in> set dial \<Longrightarrow>
          \<exists>p a tor. e = EvDialTor p a (dialTimeout tor) \<and> Tor cfg = Some tor" for e
        using dialThroughTor_events [of e cfg env ?addr] d by auto
      from assms t Some True d
      have "ev \<in> set evs \<or> ev \<in> set dial \<or> ev = EvNewClient relay"
        by (auto simp: smtpConnect_def Let_def split: outcome.splits option.splits)
      with evs dial show ?thesis by blast
    next
      case False
      from assms t Some False
      have "ev \<in> set evs \<or> ev = EvDialTimeout ?addr (dialTimeout tor)
            \<or> ev = EvNewClient relay"
        by (auto simp: smtpConnect_def Let_def split: outcome.splits option.splits)
      with evs Some show ?thesis by blast
    qed
  qed
qed

lemma smtpSession_events:
  assumes "ev \<in> set (fst (smtpSession cfg env relay payload sendTo))"
  shows "(ev = EvStartTLS \<and> smtp_Extension env False ''STARTTLS'' \<and> shouldUseTLS cfg relay)
         \<or> (\<exists>u p h. ev = EvAuth u p h) \<or> (\<exists>s. ev = EvMail s) \<or> (\<exists>a. ev = EvRcpt a)
         \<or> ev = EvData \<or> (\<exists>p. ev = EvWrite p) \<or> ev = EvCloseData"
proof -
  from assms runSteps_events
  have "ev \<in> fst ` set
           ((if smtp_Extension env False ''STARTTLS'' \<and> shouldUseTLS cfg relay
             then [(EvStartTLS, smtp_StartTLS env)] else [])
            @ (if smtp_Extension env
                    (smtp_Extension env False ''STARTTLS'' \<and> shouldUseTLS cfg relay) ''AUTH''
                  \<and> Username (Mail cfg) \<noteq> [] \<and> Password (Mail cfg) \<noteq> []
               then [(EvAuth (Username (Mail cfg)) (Password (Mail cfg)) (SMTPRelay (Mail cfg)),
                      smtp_Auth env (Username (Mail cfg)) (Password (Mail cfg))
                        (SMTPRelay (Mail cfg)))]
               else [])
            @ [(EvMail (if Sender (Mail cfg) = [] then RemailerAddress (Remailer cfg)
                    else Sender (Mail cfg)), smtp_Mail env (if Sender (Mail cfg) = [] then RemailerAddress (Remailer cfg)
                    else Sender (Mail cfg)))]
            @ map (\<lambda>addr. (EvRcpt addr, smtp_Rcpt env addr)) sendTo
            @ [(EvData, smtp_Data env),
               (EvWrite payload, smtp_Write env payload),
               (EvCloseData, smtp_Close env)])"
    unfolding smtpSession_def Let_def by blast
  then show ?thesis by (auto split: if_splits)
qed


lemma smtpRelay_trace:
  "fst (smtpRelay cfg env payload sendTo) =
     (case smtpConnect cfg env sendTo of
        (evs, Return (Inr relay)) \<Rightarrow>
          evs @ fst (smtpSession cfg env relay payload sendTo) @ [EvQuit]
      | (evs, _) \<Rightarrow> evs)"
  by (simp add: smtpRelay_def split: prod.splits outcome.splits sum.splits)






text \<open>
  C9. \<open>smtpRelay\<close> reads \<open>cfg.Tor.Timeout\<close> before it dials, on the direct path as well
  as on the anonymized one. With a nil \<open>cfg.Tor\<close> no recipient asks for the anonymizing
  transport, so the delivery is a direct one, and yet the run panics: it has made no
  connection, at most the DNS query for the MX records. Conversely a run that dialled,
  directly or through the proxy, had a \<open>cfg.Tor\<close> and used the timeout computed from it.
\<close>

theorem smtpRelay_needs_Tor_config:
  "(Tor cfg = None \<longrightarrow>
      \<not> list_ex (shouldUseTor cfg) sendTo
      \<and> snd (smtpRelay cfg env payload sendTo) = Panic
      \<and> (\<forall>ev \<in> set (fst (smtpRelay cfg env payload sendTo)). \<exists>d. ev = EvLookupMX d))
   \<and> (\<forall>a t. EvDialTimeout a t \<in> set (fst (smtpRelay cfg env payload sendTo))
         \<longrightarrow> (\<exists>tor. Tor cfg = Some tor \<and> t = dialTimeout tor))
   \<and> (\<forall>p a t. EvDialTor p a t \<in> set (fst (smtpRelay cfg env payload sendTo))
         \<longrightarrow> (\<exists>tor. Tor cfg = Some tor \<and> t = dialTimeout tor))"
proof (intro conjI allI impI ballI)
  assume n: "Tor cfg = None"
  then show "\<not> list_ex (shouldUseTor cfg) sendTo"
    by (simp add: shouldUseTor_def list_ex_iff)
  from n have c: "smtpConnect cfg env sendTo = (fst (smtpTarget cfg env sendTo), Panic)"
    by (rule smtpConnect_nil_Tor)
  then show "snd (smtpRelay cfg env payload sendTo) = Panic"
    by (simp add: smtpRelay_def)
  fix ev
  assume "ev \<in> set (fst (smtpRelay cfg env payload sendTo))"
  with c have "ev \<in> set (fst (smtpTarget cfg env sendTo))"
    by (simp add: smtpRelay_trace)
  then show "\<exists>d. ev = EvLookupMX d" by (rule smtpTarget_events)
next
  have dial: "ev \<in> set (fst (smtpConnect cfg env sendTo))"
    if h: "ev \<in> set (fst (smtpRelay cfg env payload sendTo))"
      and d: "(\<exists>a t. ev = EvDialTimeout a t) \<or> (\<exists>p a t. ev = EvDialTor p a t)" for ev
  proof -
    obtain evs r where c: "smtpConnect cfg env sendTo = (evs, r)"
      by (cases "smtpConnect cfg env sendTo") auto
    have "ev \<in> set evs"
    proof (cases "\<exists>relay. r = Return (Inr relay)")
      case True
      then obtain relay where r: "r = Return (Inr relay)" by blast
      with h c have "ev \<in> set evs
          \<or> ev \<in> set (fst (smtpSession cfg env relay payload sendTo)) \<or> ev = EvQuit"
        by (auto simp: smtpRelay_trace)
      moreover have "ev \<notin> set (fst (smtpSession cfg env relay payload sendTo))"
        using smtpSession_events [of ev cfg env relay payload sendTo] d by auto
      moreover have "ev \<noteq> EvQuit" using d by auto
      ultimately show ?thesis by blast
    next
      case False
      with h c show ?thesis
        by (auto simp: smtpRelay_trace split: outcome.splits sum.splits)
    qed
    with c show ?thesis by simp
  qed
  {
    fix a t
    assume "EvDialTimeout a t \<in> set (fst (smtpRelay cfg env payload sendTo))"
    then have "EvDialTimeout a t \<in> set (fst (smtpConnect cfg env sendTo))"
      by (intro dial) auto
    from smtpConnect_events [OF this]
    show "\<exists>tor. Tor cfg = Some tor \<and> t = dialTimeout tor" by auto
  }
  {
    fix p a t
    assume "EvDialTor p a t \<in> set (fst (smtpRelay cfg env payload sendTo))"
    then have "EvDialTor p a t \<in> set (fst (smtpConnect cfg env sendTo))"
      by (intro dial) auto
    from smtpConnect_events [OF this]
    show "\<exists>tor. Tor cfg = Some tor \<and> t = dialTimeout tor" by auto
  }
qed

theorem smtpRelay_needs_Tor_config_witness:
  "Tor (example_cfg\<lparr>Tor := None\<rparr>) = None
   \<and> snd (smtpRelay (example_cfg\<lparr>Tor := None\<rparr>) example_env ''payload''
            [''user@example.org'']) = Panic
   \<and> EvDialTimeout ''mx1.example.org.:25'' 30000000000
       \<in> set (fst (smtpRelay example_cfg example_env ''payload'' [''user@example.org'']))
   \<and> (\<exists>tor. Tor example_cfg = Some tor \<and> 30000000000 = dialTimeout tor)"
proof -
  have n: "Tor (example_cfg\<lparr>Tor := None\<rparr>) = None" by simp
  have p: "snd (smtpRelay (example_cfg\<lparr>Tor := None\<rparr>) example_env ''payload''
            [''user@example.org'']) = Panic"
    using smtpRelay_needs_Tor_config
      [of "example_cfg\<lparr>Tor := None\<rparr>" "[''user@example.org'']" example_env "''payload''"] n
    by blast
  have d: "EvDialTimeout ''mx1.example.org.:25'' 30000000000
       \<in> set (fst (smtpRelay example_cfg example_env ''payload'' [''user@example.org'']))"
    by code_simp
  have t: "\<exists>tor. Tor example_cfg = Some tor \<and> 30000000000 = dialTimeout tor"
    using smtpRelay_needs_Tor_config
      [of example_cfg "[''user@example.org'']" example_env "''payload''"] d
    by blast
  from n p d t show ?thesis by (intro conjI)
qed

subsection \<open>The pool file\<close>

text \<open>
  C1. When the spooled message carries a pooled date (\<open>Get\<close> yields a non-empty
  value) that parses and whose age in days exceeds \<open>cfg.Pool.MaxAge\<close>, \<open>mailPoolFile\<close>
  opens and closes the file and returns \<open>delFlag = true\<close> with a nil error. Nothing else
  happens in the run: \<open>mailBytes\<close> is not entered, whatever the configured sink is and
  whatever the network would answer.
\<close>

theorem mailPoolFile_expired:
  assumes "os_Open env filename = Inr f"
    and "mail_ReadMessage env f = Inr msg"
    and "Get (Header msg) ''Yamn-Pooled-Date'' \<noteq> []"
    and "time_Parse env shortdate (Get (Header msg) ''Yamn-Pooled-Date'') = Inr pooledDate"
    and "daysAgo env pooledDate > MaxAge (Pool cfg)"
  shows "mailPoolFile cfg env filename
           = ([EvOpen filename, EvClose filename], Return (True, None))
         \<and> (\<forall>payload sendTo.
               EvMailBytes payload sendTo \<notin> set (fst (mailPoolFile cfg env filename)))"
proof -
  from assms have "mailPoolFile cfg env filename
           = ([EvOpen filename, EvClose filename], Return (True, None))"
    by (simp add: mailPoolFile_def Let_def)
  then show ?thesis by simp
qed

theorem mailPoolFile_expired_witness:
  "os_Open example_env ''f'' = Inr ''spooled''
   \<and> mail_ReadMessage example_env ''spooled'' = Inr example_msg
   \<and> Get (Header example_msg) ''Yamn-Pooled-Date'' = ''10 Apr 2024''
   \<and> time_Parse example_env shortdate ''10 Apr 2024'' = Inr 100
   \<and> daysAgo (example_env\<lparr>daysAgo := (\<lambda>t. 131 - t)\<rparr>) 100 = 31
   \<and> MaxAge (Pool example_cfg) = 30
   \<and> mailPoolFile example_cfg (example_env\<lparr>daysAgo := (\<lambda>t. 131 - t)\<rparr>) ''f''
       = ([EvOpen ''f'', EvClose ''f''], Return (True, None))"
proof -
  let ?env = "example_env\<lparr>daysAgo := (\<lambda>t. 131 - t)\<rparr>"
  have g: "Get (Header example_msg) ''Yamn-Pooled-Date'' = ''10 Apr 2024''"
    by code_simp
  have a: "os_Open ?env ''f'' = Inr ''spooled''" by (simp add: example_env_def)
  have b: "mail_ReadMessage ?env ''spooled'' = Inr example_msg"
    by (simp add: example_env_def)
  have c: "Get (Header example_msg) ''Yamn-Pooled-Date'' \<noteq> []" using g by simp
  have d: "time_Parse ?env shortdate (Get (Header example_msg) ''Yamn-Pooled-Date'') = Inr 100"
    using g by (simp add: example_env_def)
  have e: "daysAgo ?env 100 > MaxAge (Pool example_cfg)"
    by (simp add: example_cfg_def)
  from mailPoolFile_expired [OF a b c d e] g
  show ?thesis by (simp add: example_env_def example_cfg_def)
qed

text \<open>Nothing but the age check reads \<open>time.Parse\<close>.\<close>

lemma mxLookup_parse_frame [simp]:
  "mxLookup cfg (env\<lparr>time_Parse := tp\<rparr>) = mxLookup cfg env"
  by (rule ext) (simp add: mxLookup_def Let_def cong: sum.case_cong option.case_cong prod.case_cong outcome.case_cong list.case_cong if_cong)

lemma smtpTarget_parse_frame [simp]:
  "smtpTarget cfg (env\<lparr>time_Parse := tp\<rparr>) = smtpTarget cfg env"
  by (rule ext) (simp add: smtpTarget_def Let_def cong: sum.case_cong option.case_cong prod.case_cong outcome.case_cong list.case_cong if_cong)

lemma dialThroughTor_parse_frame [simp]:
  "dialThroughTor cfg (env\<lparr>time_Parse := tp\<rparr>) = dialThroughTor cfg env"
  by (rule ext) (simp add: dialThroughTor_def Let_def cong: sum.case_cong option.case_cong prod.case_cong outcome.case_cong list.case_cong if_cong)

lemma smtpConnect_parse_frame [simp]:
  "smtpConnect cfg (env\<lparr>time_Parse := tp\<rparr>) = smtpConnect cfg env"
  by (rule ext) (simp add: smtpConnect_def Let_def cong: sum.case_cong option.case_cong prod.case_cong outcome.case_cong list.case_cong if_cong)

lemma smtpSession_parse_frame [simp]:
  "smtpSession cfg (env\<lparr>time_Parse := tp\<rparr>) = smtpSession cfg env"
  by (rule ext)+ (simp add: smtpSession_def Let_def cong: sum.case_cong option.case_cong prod.case_cong outcome.case_cong list.case_cong if_cong)

lemma smtpRelay_parse_frame [simp]:
  "smtpRelay cfg (env\<lparr>time_Parse := tp\<rparr>) = smtpRelay cfg env"
  by (rule ext)+ (simp add: smtpRelay_def Let_def cong: sum.case_cong option.case_cong prod.case_cong outcome.case_cong list.case_cong if_cong)

lemma sendmail_parse_frame [simp]:
  "sendmail cfg (env\<lparr>time_Parse := tp\<rparr>) = sendmail cfg env"
  by (rule ext)+ (simp add: sendmail_def Let_def cong: sum.case_cong option.case_cong prod.case_cong outcome.case_cong list.case_cong if_cong)

lemma sendmailTor_parse_frame [simp]:
  "sendmailTor cfg (env\<lparr>time_Parse := tp\<rparr>) = sendmailTor cfg env"
  by (rule ext)+ (simp add: sendmailTor_def Let_def cong: sum.case_cong option.case_cong prod.case_cong outcome.case_cong list.case_cong if_cong)

lemma execSend_parse_frame [simp]:
  "execSend (env\<lparr>time_Parse := tp\<rparr>) = execSend env"
  by (rule ext)+ (simp add: execSend_def Let_def cong: sum.case_cong option.case_cong prod.case_cong outcome.case_cong list.case_cong if_cong)

lemma mailBytes_parse_frame [simp]:
  "mailBytes cfg (env\<lparr>time_Parse := tp\<rparr>) = mailBytes cfg env"
  by (rule ext)+ (simp add: mailBytes_def Let_def cong: sum.case_cong option.case_cong prod.case_cong outcome.case_cong list.case_cong if_cong)

lemma AddressList_parse_frame [simp]:
  "AddressList (env\<lparr>time_Parse := tp\<rparr>) = AddressList env"
  by (rule ext)+ (simp add: AddressList_def Let_def cong: sum.case_cong option.case_cong prod.case_cong outcome.case_cong list.case_cong if_cong)

lemma headToAddy_parse_frame [simp]:
  "headToAddy (env\<lparr>time_Parse := tp\<rparr>) = headToAddy env"
  by (rule ext)+ (simp add: headToAddy_def Let_def cong: sum.case_cong option.case_cong prod.case_cong outcome.case_cong list.case_cong if_cong)

lemma parseFrom_parse_frame [simp]:
  "parseFrom cfg (env\<lparr>time_Parse := tp\<rparr>) = parseFrom cfg env"
  by (rule ext) (simp add: parseFrom_def Let_def cong: sum.case_cong option.case_cong prod.case_cong outcome.case_cong list.case_cong if_cong)

lemma assemble_parse_frame [simp]:
  "assemble (env\<lparr>time_Parse := tp\<rparr>) = assemble env"
  by (rule ext) (simp add: assemble_def Let_def cong: sum.case_cong option.case_cong prod.case_cong outcome.case_cong list.case_cong if_cong)






text \<open>Neither the pool age nor \<open>daysAgo\<close> is read after the age check.\<close>

lemma shouldUseTor_frame [simp]:
  "shouldUseTor (cfg\<lparr>Pool := p\<rparr>) = shouldUseTor cfg"
  by (rule ext) (simp add: shouldUseTor_def Let_def cong: sum.case_cong option.case_cong prod.case_cong outcome.case_cong list.case_cong if_cong)

lemma mxLookup_frame [simp]:
  "mxLookup (cfg\<lparr>Pool := p\<rparr>) (env\<lparr>daysAgo := d\<rparr>) = mxLookup cfg env"
  by (rule ext) (simp add: mxLookup_def Let_def cong: sum.case_cong option.case_cong prod.case_cong outcome.case_cong list.case_cong if_cong)

lemma smtpTarget_frame [simp]:
  "smtpTarget (cfg\<lparr>Pool := p\<rparr>) (env\<lparr>daysAgo := d\<rparr>) = smtpTarget cfg env"
  by (rule ext) (simp add: smtpTarget_def Let_def cong: sum.case_cong option.case_cong prod.case_cong outcome.case_cong list.case_cong if_cong)

lemma dialThroughTor_frame [simp]:
  "dialThroughTor (cfg\<lparr>Pool := p\<rparr>) (env\<lparr>daysAgo := d\<rparr>) = dialThroughTor cfg env"
  by (rule ext) (simp add: dialThroughTor_def Let_def cong: sum.case_cong option.case_cong prod.case_cong outcome.case_cong list.case_cong if_cong)

lemma smtpConnect_frame [simp]:
  "smtpConnect (cfg\<lparr>Pool := p\<rparr>) (env\<lparr>daysAgo := d\<rparr>) = smtpConnect cfg env"
  by (rule ext) (simp add: smtpConnect_def Let_def cong: sum.case_cong option.case_cong prod.case_cong outcome.case_cong list.case_cong if_cong)

lemma shouldUseTLS_frame [simp]:
  "shouldUseTLS (cfg\<lparr>Pool := p\<rparr>) = shouldUseTLS cfg"
  by (rule ext) (simp add: shouldUseTLS_def Let_def cong: sum.case_cong option.case_cong prod.case_cong outcome.case_cong list.case_cong if_cong)

lemma smtpSession_frame [simp]:
  "smtpSession (cfg\<lparr>Pool := p\<rparr>) (env\<lparr>daysAgo := d\<rparr>) = smtpSession cfg env"
  by (rule ext)+ (simp add: smtpSession_def Let_def cong: sum.case_cong option.case_cong prod.case_cong outcome.case_cong list.case_cong if_cong)

lemma smtpRelay_frame [simp]:
  "smtpRelay (cfg\<lparr>Pool := p\<rparr>) (env\<lparr>daysAgo := d\<rparr>) = smtpRelay cfg env"
  by (rule ext)+ (simp add: smtpRelay_def Let_def cong: sum.case_cong option.case_cong prod.case_cong outcome.case_cong list.case_cong if_cong)

lemma sendmail_frame [simp]:
  "sendmail (cfg\<lparr>Pool := p\<rparr>) (env\<lparr>daysAgo := d\<rparr>) = sendmail cfg env"
  by (rule ext)+ (simp add: sendmail_def Let_def cong: sum.case_cong option.case_cong prod.case_cong outcome.case_cong list.case_cong if_cong)

lemma sendmailTor_frame [simp]:
  "sendmailTor (cfg\<lparr>Pool := p\<rparr>) (env\<lparr>daysAgo := d\<rparr>) = sendmailTor cfg env"
  by (rule ext)+ (simp add: sendmailTor_def Let_def cong: sum.case_cong option.case_cong prod.case_cong outcome.case_cong list.case_cong if_cong)

lemma execSend_frame [simp]:
  "execSend (env\<lparr>daysAgo := d\<rparr>) = execSend env"
  by (rule ext)+ (simp add: execSend_def Let_def cong: sum.case_cong option.case_cong prod.case_cong outcome.case_cong list.case_cong if_cong)

lemma mailBytes_frame [simp]:
  "mailBytes (cfg\<lparr>Pool := p\<rparr>) (env\<lparr>daysAgo := d\<rparr>) = mailBytes cfg env"
  by (rule ext)+ (simp add: mailBytes_def Let_def cong: sum.case_cong option.case_cong prod.case_cong outcome.case_cong list.case_cong if_cong)

lemma AddressList_frame [simp]:
  "AddressList (env\<lparr>daysAgo := d\<rparr>) = AddressList env"
  by (rule ext)+ (simp add: AddressList_def Let_def cong: sum.case_cong option.case_cong prod.case_cong outcome.case_cong list.case_cong if_cong)

lemma headToAddy_frame [simp]:
  "headToAddy (env\<lparr>daysAgo := d\<rparr>) = headToAddy env"
  by (rule ext)+ (simp add: headToAddy_def Let_def cong: sum.case_cong option.case_cong prod.case_cong outcome.case_cong list.case_cong if_cong)

lemma parseFrom_frame [simp]:
  "parseFrom (cfg\<lparr>Pool := p\<rparr>) (env\<lparr>daysAgo := d\<rparr>) = parseFrom cfg env"
  by (rule ext) (simp add: parseFrom_def Let_def cong: sum.case_cong option.case_cong prod.case_cong outcome.case_cong list.case_cong if_cong)

lemma assemble_frame [simp]:
  "assemble (env\<lparr>daysAgo := d\<rparr>) = assemble env"
  by (rule ext) (simp add: assemble_def Let_def cong: sum.case_cong option.case_cong prod.case_cong outcome.case_cong list.case_cong if_cong)

lemma mailPoolFile_send_frame:
  "mailPoolFile_send (cfg\<lparr>Pool := p\<rparr>) (env\<lparr>daysAgo := d\<rparr>) = mailPoolFile_send cfg env"
  by (rule ext)+ (simp add: mailPoolFile_send_def Let_def cong: sum.case_cong option.case_cong prod.case_cong outcome.case_cong list.case_cong if_cong)

lemma mailBytes_enters:
  "\<exists>evs. fst (mailBytes cfg env payload sendTo) = EvMailBytes payload sendTo # evs"
  by (simp add: mailBytes_def split: prod.splits)

lemma mailPoolFile_send_eq:
  assumes "hdr2 = hdr0(''Date'' \<mapsto> [time_Now_Format env rfc5322date],
                       ''Message-Id'' \<mapsto> [messageID env])"
    and "hdr3 = hdr2(''From'' \<mapsto> parseFrom cfg env hdr2)"
    and "sendTo = headToAddy env hdr3 ''To'' @ headToAddy env hdr3 ''Cc''"
    and "payload = assemble env (msg\<lparr>Header := hdr3\<rparr>)"
  shows "mailPoolFile_send cfg env filename msg hdr0 =
     (if length sendTo = 0
      then ([EvOpen filename, EvClose filename], Return (True, Some (NoRecipients filename)))
      else
        (case mailBytes cfg env payload sendTo of
           (evs, Panic) \<Rightarrow> (EvOpen filename # evs @ [EvClose filename], Panic)
         | (evs, Return err) \<Rightarrow>
             (EvOpen filename # evs @ [EvClose filename], Return (False, err))))"
  unfolding assms mailPoolFile_send_def Let_def by (rule refl)

theorem mailPoolFile_no_date_no_recipient_counterexample:
  "os_Open example_env_bare ''f'' = Inr ''spooled''
   \<and> mail_ReadMessage example_env_bare ''spooled'' = Inr example_msg_bare
   \<and> Header example_msg_bare ''Yamn-Pooled-Date'' = None
   \<and> mailPoolFile example_cfg example_env_bare ''f''
       = ([EvOpen ''f'', EvClose ''f''], Return (True, Some (NoRecipients ''f'')))"
proof -
  have a: "os_Open example_env_bare ''f'' = Inr ''spooled''"
    by (simp add: example_env_bare_def example_env_def)
  have b: "mail_ReadMessage example_env_bare ''spooled'' = Inr example_msg_bare"
    by (simp add: example_env_bare_def)
  have c: "Header example_msg_bare ''Yamn-Pooled-Date'' = None"
    by (simp add: example_msg_bare_def)
  have d: "mailPoolFile example_cfg example_env_bare ''f''
       = ([EvOpen ''f'', EvClose ''f''], Return (True, Some (NoRecipients ''f'')))"
    by code_simp
  from a b c d show ?thesis by (intro conjI)
qed

text \<open>
  C10 (amended). When the spooled message parses and carries no pooled date (\<open>Get\<close>
  yields the empty string), \<open>mailPoolFile\<close> makes no age check: it stamps \<open>Date\<close>,
  \<open>Message-Id\<close> and \<open>From\<close> and collects the recipients of \<open>To\<close> and \<open>Cc\<close>. With
  no recipient it returns \<open>delFlag = true\<close> and the no-recipients error, and the sink is
  not entered. With a recipient it enters \<open>mailBytes\<close> with the assembled stamped message
  and these recipients, and returns \<open>delFlag = false\<close> with the error of the sink. The
  run is the same for every pool age and every answer of \<open>daysAgo\<close>.
\<close>

theorem mailPoolFile_no_date:
  assumes "os_Open env filename = Inr f"
    and "mail_ReadMessage env f = Inr msg"
    and "Get (Header msg) ''Yamn-Pooled-Date'' = []"
    and "hdr2 = (Header msg)(''Date'' \<mapsto> [time_Now_Format env rfc5322date],
                             ''Message-Id'' \<mapsto> [messageID env])"
    and "hdr3 = hdr2(''From'' \<mapsto> parseFrom cfg env hdr2)"
    and "sendTo = headToAddy env hdr3 ''To'' @ headToAddy env hdr3 ''Cc''"
    and "payload = assemble env (msg\<lparr>Header := hdr3\<rparr>)"
  shows "(sendTo = [] \<longrightarrow>
            mailPoolFile cfg env filename
              = ([EvOpen filename, EvClose filename],
                 Return (True, Some (NoRecipients filename))))
         \<and> (sendTo \<noteq> [] \<longrightarrow>
              (\<exists>evs. mailBytes cfg env payload sendTo
                       = (EvMailBytes payload sendTo # evs,
                          snd (mailBytes cfg env payload sendTo))
                 \<and> mailPoolFile cfg env filename
                     = (EvOpen filename # EvMailBytes payload sendTo # evs
                          @ [EvClose filename],
                        case snd (mailBytes cfg env payload sendTo) of
                          Panic \<Rightarrow> Panic
                        | Return err \<Rightarrow> Return (False, err))))
         \<and> (\<forall>p d. mailPoolFile (cfg\<lparr>Pool := p\<rparr>) (env\<lparr>daysAgo := d\<rparr>) filename
                     = mailPoolFile cfg env filename)"
proof (intro conjI impI allI)
  have run: "mailPoolFile cfg env filename = mailPoolFile_send cfg env filename msg (Header msg)"
    using assms(1-3) by (simp add: mailPoolFile_def)
  show "mailPoolFile cfg env filename
          = ([EvOpen filename, EvClose filename], Return (True, Some (NoRecipients filename)))"
    if "sendTo = []"
    using that run mailPoolFile_send_eq [OF assms(4-7), of filename] by simp
  show "\<exists>evs. mailBytes cfg env payload sendTo
                 = (EvMailBytes payload sendTo # evs, snd (mailBytes cfg env payload sendTo))
           \<and> mailPoolFile cfg env filename
               = (EvOpen filename # EvMailBytes payload sendTo # evs @ [EvClose filename],
                  case snd (mailBytes cfg env payload sendTo) of
                    Panic \<Rightarrow> Panic
                  | Return err \<Rightarrow> Return (False, err))"
    if ne: "sendTo \<noteq> []"
  proof -
    obtain evs where e: "fst (mailBytes cfg env payload sendTo) = EvMailBytes payload sendTo # evs"
      using mailBytes_enters by blast
    then have m: "mailBytes cfg env payload sendTo
                    = (EvMailBytes payload sendTo # evs, snd (mailBytes cfg env payload sendTo))"
      by (metis prod.collapse)
    have "mailPoolFile_send cfg env filename msg (Header msg)
            = (case mailBytes cfg env payload sendTo of
                 (evs, Panic) \<Rightarrow> (EvOpen filename # evs @ [EvClose filename], Panic)
               | (evs, Return err) \<Rightarrow>
                   (EvOpen filename # evs @ [EvClose filename], Return (False, err)))"
      using ne mailPoolFile_send_eq [OF assms(4-7), of filename] by simp
    also have "\<dots> = (EvOpen filename # EvMailBytes payload sendTo # evs @ [EvClose filename],
                  case snd (mailBytes cfg env payload sendTo) of
                    Panic \<Rightarrow> Panic
                  | Return err \<Rightarrow> Return (False, err))"
      by (subst m) (simp split: outcome.splits)
    finally show ?thesis using m run by simp
  qed
  show "mailPoolFile (cfg\<lparr>Pool := p\<rparr>) (env\<lparr>daysAgo := d\<rparr>) filename
          = mailPoolFile cfg env filename" for p d
    using assms(1-3) by (simp add: mailPoolFile_def mailPoolFile_send_frame)
qed


theorem mailPoolFile_no_date_witness:
  "Get (Header example_msg_bare) ''Yamn-Pooled-Date'' = []
   \<and> mailPoolFile example_cfg example_env_bare ''f''
       = ([EvOpen ''f'', EvClose ''f''], Return (True, Some (NoRecipients ''f'')))
   \<and> Get ((Header example_msg)(''Yamn-Pooled-Date'' := None)) ''Yamn-Pooled-Date'' = []
   \<and> (\<exists>evs. mailPoolFile example_cfg
          (example_env\<lparr>mail_ReadMessage :=
             (\<lambda>f. Inr (example_msg\<lparr>Header := (Header example_msg)(''Yamn-Pooled-Date'' := None)\<rparr>))\<rparr>)
          ''f''
        = (EvOpen ''f''
           # EvMailBytes
               (''Date: Sat, 20 Apr 2024 12:00:00 +0000'' @ [CHR 0x0A]
                @ ''From: Anonymous <remailer@example.net>'' @ [CHR 0x0A]
                @ ''Message-Id: <1@example.net>'' @ [CHR 0x0A]
                @ ''Subject: hello'' @ [CHR 0x0A]
                @ ''To: user@example.org'' @ [CHR 0x0A, CHR 0x0A] @ ''text'')
               [''user@example.org'']
           # evs @ [EvClose ''f''],
           Return (False, None)))
   \<and> mailPoolFile (example_cfg\<lparr>Pool := \<lparr>MaxAge = - 1\<rparr>\<rparr>)
        (example_env_bare\<lparr>daysAgo := (\<lambda>t. 1000)\<rparr>) ''f''
       = mailPoolFile example_cfg example_env_bare ''f''"
proof -
  let ?msg = "example_msg\<lparr>Header := (Header example_msg)(''Yamn-Pooled-Date'' := None)\<rparr>"
  let ?env = "example_env\<lparr>mail_ReadMessage := (\<lambda>f. Inr ?msg)\<rparr>"
  let ?hdr2 = "(Header ?msg)(''Date'' \<mapsto> [time_Now_Format ?env rfc5322date],
                             ''Message-Id'' \<mapsto> [messageID ?env])"
  let ?hdr3 = "?hdr2(''From'' \<mapsto> parseFrom example_cfg ?env ?hdr2)"
  let ?sendTo = "headToAddy ?env ?hdr3 ''To'' @ headToAddy ?env ?hdr3 ''Cc''"
  let ?payload = "assemble ?env (?msg\<lparr>Header := ?hdr3\<rparr>)"
  let ?text = "''Date: Sat, 20 Apr 2024 12:00:00 +0000'' @ [CHR 0x0A]
                @ ''From: Anonymous <remailer@example.net>'' @ [CHR 0x0A]
                @ ''Message-Id: <1@example.net>'' @ [CHR 0x0A]
                @ ''Subject: hello'' @ [CHR 0x0A]
                @ ''To: user@example.org'' @ [CHR 0x0A, CHR 0x0A] @ ''text''"
  have a0: "os_Open example_env_bare ''f'' = Inr ''spooled''"
    by (simp add: example_env_bare_def example_env_def)
  have b0: "mail_ReadMessage example_env_bare ''spooled'' = Inr example_msg_bare"
    by (simp add: example_env_bare_def)
  have c0: "Get (Header example_msg_bare) ''Yamn-Pooled-Date'' = []"
    by code_simp
  have s0: "headToAddy example_env_bare
              ((Header example_msg_bare)
                 (''Date'' \<mapsto> [time_Now_Format example_env_bare rfc5322date],
                  ''Message-Id'' \<mapsto> [messageID example_env_bare],
                  ''From'' \<mapsto> parseFrom example_cfg example_env_bare
                     ((Header example_msg_bare)
                        (''Date'' \<mapsto> [time_Now_Format example_env_bare rfc5322date],
                         ''Message-Id'' \<mapsto> [messageID example_env_bare])))) ''To''
            @ headToAddy example_env_bare
              ((Header example_msg_bare)
                 (''Date'' \<mapsto> [time_Now_Format example_env_bare rfc5322date],
                  ''Message-Id'' \<mapsto> [messageID example_env_bare],
                  ''From'' \<mapsto> parseFrom example_cfg example_env_bare
                     ((Header example_msg_bare)
                        (''Date'' \<mapsto> [time_Now_Format example_env_bare rfc5322date],
                         ''Message-Id'' \<mapsto> [messageID example_env_bare])))) ''Cc''
            = []"
    by code_simp
  note t0 = mailPoolFile_no_date [OF a0 b0 c0 refl refl refl refl, of example_cfg]
  have r0: "mailPoolFile example_cfg example_env_bare ''f''
       = ([EvOpen ''f'', EvClose ''f''], Return (True, Some (NoRecipients ''f'')))"
    using t0 [THEN conjunct1] s0 by (rule mp)
  have f0: "mailPoolFile (example_cfg\<lparr>Pool := \<lparr>MaxAge = - 1\<rparr>\<rparr>)
        (example_env_bare\<lparr>daysAgo := (\<lambda>t. 1000)\<rparr>) ''f''
       = mailPoolFile example_cfg example_env_bare ''f''"
    using t0 [THEN conjunct2, THEN conjunct2] by blast
  have a1: "os_Open ?env ''f'' = Inr ''spooled''" by (simp add: example_env_def)
  have b1: "mail_ReadMessage ?env ''spooled'' = Inr ?msg" by simp
  have c1: "Get ((Header example_msg)(''Yamn-Pooled-Date'' := None)) ''Yamn-Pooled-Date'' = []"
    by code_simp
  then have c1': "Get (Header ?msg) ''Yamn-Pooled-Date'' = []" by simp
  have s1: "?sendTo = [''user@example.org'']" by code_simp
  have p1: "?payload = ?text" by code_simp
  have o1: "snd (mailBytes example_cfg ?env ?text [''user@example.org'']) = Return None"
    by code_simp
  note t1 = mailPoolFile_no_date [OF a1 b1 c1' refl refl refl refl, of example_cfg]
  have "?sendTo \<noteq> []" using s1 by simp
  with t1 [THEN conjunct2, THEN conjunct1]
  obtain evs where "mailPoolFile example_cfg ?env ''f''
      = (EvOpen ''f'' # EvMailBytes ?payload ?sendTo # evs @ [EvClose ''f''],
         case snd (mailBytes example_cfg ?env ?payload ?sendTo) of
           Panic \<Rightarrow> Panic
         | Return err \<Rightarrow> Return (False, err))"
    by blast
  then have "mailPoolFile example_cfg ?env ''f''
      = (EvOpen ''f'' # EvMailBytes ?text [''user@example.org''] # evs @ [EvClose ''f''],
         Return (False, None))"
    unfolding s1 p1 o1 by simp
  then have r1: "\<exists>evs. mailPoolFile example_cfg ?env ''f''
      = (EvOpen ''f'' # EvMailBytes ?text [''user@example.org''] # evs @ [EvClose ''f''],
         Return (False, None))"
    by blast
  from c0 r0 c1 r1 f0 show ?thesis by (intro conjI)
qed

subsection \<open>The header names that ReadMessage yields\<close>

lemma letters_disjoint:
  "list_all (\<lambda>c. c \<notin> set ''abcdefghijklmnopqrstuvwxyz'') ''ABCDEFGHIJKLMNOPQRSTUVWXYZ''"
  by simp

lemma map_of_zip_cases:
  "(map_of (zip xs ys) c = None \<and> (length xs = length ys \<longrightarrow> c \<notin> set xs))
   \<or> (\<exists>u. map_of (zip xs ys) c = Some u \<and> c \<in> set xs \<and> u \<in> set ys)"
proof (cases "map_of (zip xs ys) c")
  case None
  then show ?thesis by (auto simp: map_of_zip_is_None)
next
  case (Some u)
  then have "(c, u) \<in> set (zip xs ys)" by (rule map_of_SomeD)
  then have "c \<in> set xs" and "u \<in> set ys"
    by (auto dest: set_zip_leftD set_zip_rightD)
  with Some show ?thesis by blast
qed

lemma toUpper_cases:
  "toUpper c = c \<or> (c \<in> set ''abcdefghijklmnopqrstuvwxyz''
                    \<and> toUpper c \<in> set ''ABCDEFGHIJKLMNOPQRSTUVWXYZ'')"
proof -
  define lower where "lower = ''abcdefghijklmnopqrstuvwxyz''"
  define upper where "upper = ''ABCDEFGHIJKLMNOPQRSTUVWXYZ''"
  have "toUpper c = (case map_of (zip lower upper) c of Some u \<Rightarrow> u | None \<Rightarrow> c)"
    unfolding toUpper_def lower_def upper_def ..
  with map_of_zip_cases [of lower upper c]
  have "toUpper c = c \<or> (c \<in> set lower \<and> toUpper c \<in> set upper)"
    by auto
  then show ?thesis unfolding lower_def upper_def .
qed


lemma toLower_cases:
  "toLower c = c \<or> (c \<in> set ''ABCDEFGHIJKLMNOPQRSTUVWXYZ''
                    \<and> toLower c \<in> set ''abcdefghijklmnopqrstuvwxyz'')"
proof -
  define lower where "lower = ''abcdefghijklmnopqrstuvwxyz''"
  define upper where "upper = ''ABCDEFGHIJKLMNOPQRSTUVWXYZ''"
  have "toLower c = (case map_of (zip upper lower) c of Some l \<Rightarrow> l | None \<Rightarrow> c)"
    unfolding toLower_def lower_def upper_def ..
  with map_of_zip_cases [of upper lower c]
  have "toLower c = c \<or> (c \<in> set upper \<and> toLower c \<in> set lower)"
    by auto
  then show ?thesis unfolding lower_def upper_def .
qed

lemma toUpper_idem: "toUpper (toUpper c) = toUpper c"
proof -
  define lower where "lower = ''abcdefghijklmnopqrstuvwxyz''"
  define upper where "upper = ''ABCDEFGHIJKLMNOPQRSTUVWXYZ''"
  have disj: "x \<in> set upper \<Longrightarrow> x \<notin> set lower" for x
    using letters_disjoint unfolding lower_def upper_def list_all_iff by blast
  have c: "toUpper x = x \<or> (x \<in> set lower \<and> toUpper x \<in> set upper)" for x
    using toUpper_cases [of x] unfolding lower_def upper_def .
  show ?thesis
  proof (cases "toUpper c = c")
    case True
    then show ?thesis by simp
  next
    case False
    with c [of c] have "toUpper c \<in> set upper" by blast
    then have "toUpper c \<notin> set lower" by (rule disj)
    with c [of "toUpper c"] show ?thesis by blast
  qed
qed

lemma toLower_idem: "toLower (toLower c) = toLower c"
proof -
  define lower where "lower = ''abcdefghijklmnopqrstuvwxyz''"
  define upper where "upper = ''ABCDEFGHIJKLMNOPQRSTUVWXYZ''"
  have disj: "x \<in> set upper \<Longrightarrow> x \<notin> set lower" for x
    using letters_disjoint unfolding lower_def upper_def list_all_iff by blast
  have c: "toLower x = x \<or> (x \<in> set upper \<and> toLower x \<in> set lower)" for x
    using toLower_cases [of x] unfolding lower_def upper_def .
  show ?thesis
  proof (cases "toLower c = c")
    case True
    then show ?thesis by simp
  next
    case False
    with c [of c] have "toLower c \<in> set lower" by blast
    with disj [of "toLower c"] have "toLower c \<notin> set upper" by blast
    with c [of "toLower c"] show ?thesis by blast
  qed
qed

lemma letters_valid:
  "list_all validHeaderFieldByte ''abcdefghijklmnopqrstuvwxyz''"
  "list_all validHeaderFieldByte ''ABCDEFGHIJKLMNOPQRSTUVWXYZ''"
  by (simp_all add: validHeaderFieldByte_def)

lemma valid_toUpper:
  assumes "validHeaderFieldByte c"
  shows "validHeaderFieldByte (toUpper c)"
proof -
  define upper where "upper = ''ABCDEFGHIJKLMNOPQRSTUVWXYZ''"
  have "\<forall>x \<in> set upper. validHeaderFieldByte x"
    using letters_valid(2) unfolding upper_def by (simp only: list_all_iff)
  moreover have "toUpper c = c \<or> toUpper c \<in> set upper"
    using toUpper_cases [of c] unfolding upper_def by (rule disj_forward) simp_all
  ultimately show ?thesis using assms by metis
qed

lemma valid_toLower:
  assumes "validHeaderFieldByte c"
  shows "validHeaderFieldByte (toLower c)"
proof -
  define lower where "lower = ''abcdefghijklmnopqrstuvwxyz''"
  have "\<forall>x \<in> set lower. validHeaderFieldByte x"
    using letters_valid(1) unfolding lower_def by (simp only: list_all_iff)
  moreover have "toLower c = c \<or> toLower c \<in> set lower"
    using toLower_cases [of c] unfolding lower_def by (rule disj_forward) simp_all
  ultimately show ?thesis using assms by metis
qed

lemma valid_not_special:
  assumes "validHeaderFieldByte c"
  shows "\<not> isBlank c" and "c \<noteq> CHR '':''" and "c \<noteq> CHR 0x0A"
proof -
  have "\<not> validHeaderFieldByte CHR '' ''" and "\<not> validHeaderFieldByte CHR 0x09"
    and "\<not> validHeaderFieldByte CHR '':''" and "\<not> validHeaderFieldByte CHR 0x0A"
    by (simp_all add: validHeaderFieldByte_def)
  with assms show "\<not> isBlank c" and "c \<noteq> CHR '':''" and "c \<noteq> CHR 0x0A"
    by (auto simp: isBlank_def)
qed

lemma canonicalBytes_idem:
  "canonicalBytes upper (canonicalBytes upper s) = canonicalBytes upper s"
  by (induction s arbitrary: upper) (simp_all add: Let_def toUpper_idem toLower_idem)

lemma canonicalBytes_valid:
  "list_all validHeaderFieldByte s \<Longrightarrow> list_all validHeaderFieldByte (canonicalBytes upper s)"
  by (induction s arbitrary: upper) (simp_all add: Let_def valid_toUpper valid_toLower)

lemma canonicalBytes_Nil: "canonicalBytes upper s = [] \<longleftrightarrow> s = []"
  by (cases s) (simp_all add: Let_def)

lemma CanonicalMIMEHeaderKey_idem:
  "CanonicalMIMEHeaderKey (CanonicalMIMEHeaderKey k) = CanonicalMIMEHeaderKey k"
  by (simp add: CanonicalMIMEHeaderKey_def canonicalBytes_idem canonicalBytes_valid)

lemma CanonicalMIMEHeaderKey_parsed:
  assumes "CanonicalMIMEHeaderKey k \<noteq> []" and "\<not> isBlank (hd k)"
    and "CHR '':'' \<notin> set k" and "CHR 0x0A \<notin> set k"
  shows "parsedKey (CanonicalMIMEHeaderKey k)"
proof (cases "list_all validHeaderFieldByte k")
  case False
  then have "CanonicalMIMEHeaderKey k = k" by (simp add: CanonicalMIMEHeaderKey_def)
  with assms show ?thesis by (simp add: parsedKey_def)
next
  case True
  let ?key = "CanonicalMIMEHeaderKey k"
  from True have key: "?key = canonicalBytes True k" by (simp add: CanonicalMIMEHeaderKey_def)
  from True have v: "list_all validHeaderFieldByte ?key"
    unfolding key by (rule canonicalBytes_valid)
  then have all: "\<forall>c \<in> set ?key. validHeaderFieldByte c" by (simp add: list_all_iff)
  from assms(1) have "hd ?key \<in> set ?key" by simp
  with all have "validHeaderFieldByte (hd ?key)" by blast
  then have "\<not> isBlank (hd ?key)" by (rule valid_not_special)
  moreover have "CHR '':'' \<notin> set ?key" using all valid_not_special(2) by blast
  moreover have "CHR 0x0A \<notin> set ?key" using all valid_not_special(3) by blast
  ultimately show ?thesis
    using assms(1) by (simp add: parsedKey_def CanonicalMIMEHeaderKey_idem)
qed


lemma readLine_facts:
  assumes "readLine s = Some (line, rest)"
  shows "CHR 0x0A \<notin> set line" and "line \<noteq> [] \<Longrightarrow> hd line = hd s"
proof -
  let ?l = "takeWhile (\<lambda>c. c \<noteq> CHR 0x0A) s"
  from assms have l: "line = ?l \<or> line = butlast ?l"
    by (auto simp: readLine_def Let_def split: if_splits)
  have "CHR 0x0A \<notin> set ?l" by (auto dest: set_takeWhileD)
  moreover have "set (butlast ?l) \<subseteq> set ?l" by (auto dest: in_set_butlastD)
  ultimately show "CHR 0x0A \<notin> set line" using l by auto
  show "hd line = hd s" if "line \<noteq> []"
  proof -
    from that l have ne: "?l \<noteq> []" by auto
    then have "hd ?l = hd s" by (cases s) (auto split: if_splits)
    moreover have "hd line = hd ?l"
      using l that by (cases ?l) (auto split: if_splits)
    ultimately show ?thesis by simp
  qed
qed

lemma readLine_None: "readLine s = None \<Longrightarrow> s = []"
  by (cases s) (simp_all add: readLine_def Let_def)

lemma trim_subset: "set (trim s) \<subseteq> set s"
  by (auto simp: trim_def dest!: set_dropWhileD)

lemma trim_hd:
  assumes "s \<noteq> []" and "\<not> isBlank (hd s)"
  shows "trim s \<noteq> []" and "hd (trim s) = hd s"
proof -
  from assms have d: "dropWhile isBlank s = s" by (cases s) auto
  have "hd s \<in> set (rev s)" using assms(1) by simp
  then have "dropWhile isBlank (rev s) \<noteq> []"
    using assms(2) by (auto simp: dropWhile_eq_Nil_conv)
  then show ne: "trim s \<noteq> []" by (simp add: trim_def d)
  have "s = rev (dropWhile isBlank (rev s)) @ rev (takeWhile isBlank (rev s))"
    by (metis rev_append rev_rev_ident takeWhile_dropWhile_id)
  then have "s = trim s @ rev (takeWhile isBlank (rev s))" by (simp add: trim_def d)
  with ne show "hd (trim s) = hd s" by (metis hd_append2)
qed

lemma readContinued_facts:
  "\<exists>t. fst (readContinued buf s) = buf @ t \<and> CHR 0x0A \<notin> set t"
  "snd (readContinued buf s) = [] \<or> \<not> isBlank (hd (snd (readContinued buf s)))"
proof (induction buf s rule: readContinued.induct)
  case (1 buf s)
  {
    case 1
    show ?case
    proof (cases s)
      case Nil
      then show ?thesis by (subst readContinued.simps) simp
    next
      case (Cons c cs)
      show ?thesis
      proof (cases "isBlank c")
        case False
        with Cons show ?thesis by (subst readContinued.simps) simp
      next
        case True
        show ?thesis
        proof (cases "readLine (dropWhile isBlank s)")
          case None
          with Cons True have "readContinued buf s = (buf @ '' '', dropWhile isBlank s)"
            by (subst readContinued.simps) simp
          then show ?thesis by simp
        next
          case (Some x)
          obtain line rest where x: "x = (line, rest)" by (cases x)
          with Some have r: "readLine (dropWhile isBlank s) = Some (line, rest)" by simp
          from Cons True r
          have e: "readContinued buf s = readContinued (buf @ '' '' @ trim line) rest"
            by (subst readContinued.simps) simp
          from "1.IH"(1) [OF Cons True r refl]
          obtain t where t: "fst (readContinued (buf @ '' '' @ trim line) rest)
                               = (buf @ '' '' @ trim line) @ t"
            and nl: "CHR 0x0A \<notin> set t"
            by blast
          have "CHR 0x0A \<notin> set line" using r by (rule readLine_facts)
          with trim_subset [of line] have "CHR 0x0A \<notin> set (trim line)" by blast
          with nl have "CHR 0x0A \<notin> set ('' '' @ trim line @ t)" by simp
          moreover have "fst (readContinued buf s) = buf @ ('' '' @ trim line @ t)"
            using e t by simp
          ultimately show ?thesis by blast
        qed
      qed
    qed
  next
    case 2
    show ?case
    proof (cases s)
      case Nil
      then show ?thesis by (subst (1 2) readContinued.simps) simp
    next
      case (Cons c cs)
      show ?thesis
      proof (cases "isBlank c")
        case False
        with Cons have "readContinued buf s = (buf, s)"
          by (subst readContinued.simps) simp
        with Cons False show ?thesis by simp
      next
        case True
        show ?thesis
        proof (cases "readLine (dropWhile isBlank s)")
          case None
          then have "dropWhile isBlank s = []" by (rule readLine_None)
          moreover from Cons True None
          have "readContinued buf s = (buf @ '' '', dropWhile isBlank s)"
            by (subst readContinued.simps) simp
          ultimately show ?thesis by simp
        next
          case (Some x)
          obtain line rest where x: "x = (line, rest)" by (cases x)
          with Some have r: "readLine (dropWhile isBlank s) = Some (line, rest)" by simp
          from Cons True r
          have e: "readContinued buf s = readContinued (buf @ '' '' @ trim line) rest"
            by (subst readContinued.simps) simp
          from "1.IH"(2) [OF Cons True r refl] show ?thesis unfolding e .
        qed
      qed
    qed
  }
qed


lemma Cut_facts:
  assumes "Cut kv sep = Some (k, v)"
  shows "sep \<notin> set k" and "set k \<subseteq> set kv" and "k \<noteq> [] \<Longrightarrow> hd k = hd kv"
proof -
  from assms have k: "k = takeWhile (\<lambda>c. c \<noteq> sep) kv"
    by (simp add: Cut_def split: if_splits)
  show "sep \<notin> set k" unfolding k by (auto dest: set_takeWhileD)
  show "set k \<subseteq> set kv" unfolding k by (auto dest: set_takeWhileD)
  show "hd k = hd kv" if "k \<noteq> []"
    using that unfolding k by (cases kv) (auto split: if_splits)
qed

lemma header_key_parsed:
  assumes "readLine s = Some (line, rest)" and "line \<noteq> []"
    and "s = [] \<or> \<not> isBlank (hd s)"
    and "readContinued (trim line) rest = (kv, rest')"
    and "Cut kv CHR '':'' = Some (k, v)"
    and "CanonicalMIMEHeaderKey k \<noteq> []"
  shows "parsedKey (CanonicalMIMEHeaderKey k)"
proof -
  from assms(1,2) have "hd line = hd s" by (rule readLine_facts)
  moreover from assms(1) have "s \<noteq> []" by (auto simp: readLine_def)
  ultimately have nb: "\<not> isBlank (hd line)" using assms(3) by simp
  from trim_hd [OF assms(2) nb] have t: "trim line \<noteq> []" "\<not> isBlank (hd (trim line))"
    using nb by simp_all
  from readContinued_facts(1) [of "trim line" rest] assms(4)
  obtain u where kv: "kv = trim line @ u" and u: "CHR 0x0A \<notin> set u" by auto
  from assms(1) have "CHR 0x0A \<notin> set line" by (rule readLine_facts)
  with trim_subset [of line] u kv have nl: "CHR 0x0A \<notin> set kv" by auto
  from kv t have hd: "\<not> isBlank (hd kv)" by simp
  from assms(6) have "k \<noteq> []"
    by (auto simp: CanonicalMIMEHeaderKey_def)
  with Cut_facts(3) [OF assms(5)] hd have "\<not> isBlank (hd k)" by simp
  moreover have "CHR '':'' \<notin> set k" using assms(5) by (rule Cut_facts)
  moreover have "CHR 0x0A \<notin> set k" using Cut_facts(2) [OF assms(5)] nl by blast
  ultimately show ?thesis using assms(6) by (intro CanonicalMIMEHeaderKey_parsed)
qed

lemma update_keys: "fst ` set (AList.update k v m) = insert k (fst ` set m)"
  by (simp add: dom_update)

lemma readHeaderLoop_keys:
  assumes "\<forall>k \<in> fst ` set m. parsedKey k" and "s = [] \<or> \<not> isBlank (hd s)"
  shows "\<forall>k \<in> fst ` set (fst (snd (readHeaderLoop m s))). parsedKey k"
  using assms
proof (induction m s rule: readHeaderLoop.induct)
  case (1 m s)
  show ?case
  proof (cases "readLine s")
    case None
    then have "readHeaderLoop m s = (Some EOF, m, [])"
      by (subst readHeaderLoop.simps) simp
    with "1.prems"(1) show ?thesis by simp
  next
    case (Some x)
    obtain line rest where x: "(line, rest) = x" by (cases x) auto
    with Some have r: "readLine s = Some (line, rest)" by simp
    show ?thesis
    proof (cases "line = []")
      case True
      with r have "readHeaderLoop m s = (None, m, rest)"
        by (subst readHeaderLoop.simps) simp
      with "1.prems"(1) show ?thesis by simp
    next
      case line: False
      obtain kv rest' where c: "(kv, rest') = readContinued (trim line) rest"
        by (cases "readContinued (trim line) rest") auto
      then have c': "readContinued (trim line) rest = (kv, rest')" by simp
      have next_ok: "rest' = [] \<or> \<not> isBlank (hd rest')"
        using readContinued_facts(2) [of "trim line" rest] c' by simp
      show ?thesis
      proof (cases "kv = []")
        case True
        with r line c' have "readHeaderLoop m s = (None, m, rest')"
          by (subst readHeaderLoop.simps) simp
        with "1.prems"(1) show ?thesis by simp
      next
        case kv: False
        show ?thesis
        proof (cases "Cut kv CHR '':''")
          case None
          with r line c' kv have "readHeaderLoop m s = (Some (MalformedHeaderLine kv), m, rest')"
            by (subst readHeaderLoop.simps) simp
          with "1.prems"(1) show ?thesis by simp
        next
          case (Some y)
          obtain k v where y: "(k, v) = y" by (cases y) auto
          with Some have cut: "Cut kv CHR '':'' = Some (k, v)" by simp
          let ?key = "CanonicalMIMEHeaderKey k"
          show ?thesis
          proof (cases "?key = []")
            case True
            with r line c' kv cut have e: "readHeaderLoop m s = readHeaderLoop m rest'"
              by (subst readHeaderLoop.simps) simp
            from "1.IH"(1) [OF \<open>readLine s = Some x\<close> x line c kv Some y refl True
                "1.prems"(1) next_ok]
            show ?thesis unfolding e .
          next
            case False
            let ?m = "AList.update ?key
                        ((case map_of m ?key of None \<Rightarrow> [] | Some vs \<Rightarrow> vs)
                         @ [dropWhile isBlank v]) m"
            from r line c' kv cut False
            have e: "readHeaderLoop m s = readHeaderLoop ?m rest'"
              by (subst readHeaderLoop.simps) (simp add: Let_def)
            have "parsedKey ?key"
              using r line "1.prems"(2) c' cut False by (rule header_key_parsed)
            with "1.prems"(1) have keys: "\<forall>k \<in> fst ` set ?m. parsedKey k"
              unfolding update_keys by blast
            from "1.IH"(2) [OF \<open>readLine s = Some x\<close> x line c kv Some y refl False
                keys next_ok]
            show ?thesis unfolding e .
          qed
        qed
      qed
    qed
  qed
qed

text \<open>
  Every header name of a message that \<open>ReadMessage\<close> returns is a \<open>parsedKey\<close>: the
  hypothesis on the names in the round trip holds for every parsed message.
\<close>

lemma ReadMessage_keys:
  assumes "ReadMessage s = Inr msg"
  shows "\<forall>k \<in> dom (Header msg). parsedKey k"
proof -
  obtain err m rest where h: "readHeader s = (err, m, rest)"
    by (cases "readHeader s") auto
  have "\<forall>k \<in> fst ` set m. parsedKey k"
  proof (cases "s = [] \<or> \<not> isBlank (hd s)")
    case True
    then have "readHeader s = readHeaderLoop [] s"
      by (cases s) (auto simp: readHeader_def)
    with h have "m = fst (snd (readHeaderLoop [] s))" by simp
    moreover have "\<forall>k \<in> fst ` set ([] :: (string \<times> string list) list). parsedKey k" by simp
    ultimately show ?thesis using readHeaderLoop_keys [OF _ True, of "[]"] by simp
  next
    case False
    then have "m = []" using h by (cases s) (auto simp: readHeader_def)
    then show ?thesis by simp
  qed
  moreover from assms h have "Header msg = map_of m"
    by (auto simp: ReadMessage_def split: option.splits if_splits)
  ultimately show ?thesis by (simp add: dom_map_of_conv_image_fst)
qed

subsection \<open>Assembling and reading back\<close>

lemma readLine_line:
  assumes "CHR 0x0A \<notin> set l" and "l = [] \<or> last l \<noteq> CHR 0x0D"
  shows "readLine (l @ CHR 0x0A # rest) = Some (l, rest)"
proof -
  have t: "takeWhile (\<lambda>c. c \<noteq> CHR 0x0A) (l @ CHR 0x0A # rest) = l"
    using assms(1) by (auto simp: takeWhile_tail)
  show ?thesis
    unfolding readLine_def Let_def t using assms(2) by auto
qed

lemma readContinued_none:
  "s = [] \<or> \<not> isBlank (hd s) \<Longrightarrow> readContinued buf s = (buf, s)"
  by (subst readContinued.simps) (auto split: list.splits)

lemma trim_plain:
  assumes "s \<noteq> []" and "\<not> isBlank (hd s)" and "\<not> isBlank (last s)"
  shows "trim s = s"
proof -
  from assms have "dropWhile isBlank s = s"
    by (cases s) auto
  moreover from assms have "dropWhile isBlank (rev s) = rev s"
    by (cases "rev s") (auto simp: last_rev [symmetric] hd_rev)
  ultimately show ?thesis by (simp add: trim_def)
qed

lemma trim_space_after:
  assumes "s \<noteq> []" and "\<not> isBlank (hd s)" and "\<not> isBlank (last s)"
  shows "trim (s @ '' '') = s"
proof -
  from assms have "dropWhile isBlank (s @ '' '') = s @ '' ''"
    by (cases s) auto
  moreover from assms have "dropWhile isBlank (rev s) = rev s"
    by (cases "rev s") (auto simp: last_rev [symmetric] hd_rev)
  moreover have "isBlank CHR '' ''" by (simp add: isBlank_def)
  ultimately show ?thesis by (simp add: trim_def)
qed

lemma Cut_colon:
  assumes "CHR '':'' \<notin> set k"
  shows "Cut (k @ CHR '':'' # w) CHR '':'' = Some (k, w)"
proof -
  have "takeWhile (\<lambda>c. c \<noteq> CHR '':'') (k @ CHR '':'' # w) = k"
    using assms by (auto simp: takeWhile_tail)
  moreover have "dropWhile (\<lambda>c. c \<noteq> CHR '':'') (k @ CHR '':'' # w) = CHR '':'' # w"
    using assms by (auto simp: dropWhile_append3)
  ultimately show ?thesis by (simp add: Cut_def)
qed

text \<open>The header line that \<open>assemble\<close> writes for a key is read back as that key with
  that value.\<close>

lemma header_line_kv:
  assumes "parsedKey k" and "parsedValue v"
  shows "\<exists>w. trim (k @ '': '' @ v) = k @ CHR '':'' # w \<and> dropWhile isBlank w = v"
proof (cases "v = []")
  case True
  have nb: "\<not> isBlank CHR '':''" by (simp add: isBlank_def)
  from assms(1) have "k @ '':'' \<noteq> []" and "\<not> isBlank (hd (k @ '':''))"
    by (auto simp: parsedKey_def)
  with nb have "trim ((k @ '':'') @ '' '') = k @ '':''"
    by (intro trim_space_after) auto
  with True show ?thesis by simp
next
  case False
  with assms(2) have v: "\<not> isBlank (hd v)" "\<not> isBlank (last v)"
    by (auto simp: parsedValue_def)
  from assms(1) have "k @ '': '' @ v \<noteq> []" and "\<not> isBlank (hd (k @ '': '' @ v))"
    by (auto simp: parsedKey_def)
  moreover from False v have "\<not> isBlank (last (k @ '': '' @ v))" by simp
  ultimately have "trim (k @ '': '' @ v) = k @ CHR '':'' # ('' '' @ v)"
    using trim_plain [of "k @ '': '' @ v"] by simp
  moreover have "dropWhile isBlank ('' '' @ v) = v"
    using False v by (cases v) (auto simp: isBlank_def)
  ultimately show ?thesis by blast
qed

lemma header_line_read:
  assumes "parsedKey k" and "parsedValue v"
  shows "readLine ((k @ '': '' @ v @ [CHR 0x0A]) @ rest) = Some (k @ '': '' @ v, rest)"
proof -
  have "CHR 0x0A \<notin> set (k @ '': '' @ v)"
    using assms by (auto simp: parsedKey_def parsedValue_def)
  moreover have "k @ '': '' @ v = [] \<or> last (k @ '': '' @ v) \<noteq> CHR 0x0D"
    using assms by (cases "v = []") (auto simp: parsedValue_def)
  ultimately have "readLine ((k @ '': '' @ v) @ CHR 0x0A # rest) = Some (k @ '': '' @ v, rest)"
    by (rule readLine_line)
  then show ?thesis by simp
qed

lemma readHeaderLoop_step:
  assumes "readLine s = Some (line, rest)" and "line \<noteq> []"
    and "readContinued (trim line) rest = (kv, rest')" and "kv \<noteq> []"
    and "Cut kv CHR '':'' = Some (k, v)"
    and "CanonicalMIMEHeaderKey k = key" and "key \<noteq> []"
  shows "readHeaderLoop m s
           = readHeaderLoop
               (AList.update key
                  ((case map_of m key of None \<Rightarrow> [] | Some vs \<Rightarrow> vs)
                   @ [dropWhile isBlank v]) m) rest'"
  by (subst readHeaderLoop.simps) (simp add: assms)

lemma readHeaderLoop_line:
  assumes "parsedKey k" and "parsedValue v" and "rest = [] \<or> \<not> isBlank (hd rest)"
  shows "readHeaderLoop m ((k @ '': '' @ v @ [CHR 0x0A]) @ rest)
           = readHeaderLoop
               (AList.update k ((case map_of m k of None \<Rightarrow> [] | Some vs \<Rightarrow> vs) @ [v]) m) rest"
proof -
  from header_line_kv [OF assms(1,2)]
  obtain w where t: "trim (k @ '': '' @ v) = k @ CHR '':'' # w"
    and w: "dropWhile isBlank w = v"
    by blast
  have c: "Cut (k @ CHR '':'' # w) CHR '':'' = Some (k, w)"
    using assms(1) by (intro Cut_colon) (simp add: parsedKey_def)
  have canon: "CanonicalMIMEHeaderKey k = k" and ne: "k \<noteq> []"
    using assms(1) by (simp_all add: parsedKey_def)
  have r: "readLine ((k @ '': '' @ v @ [CHR 0x0A]) @ rest) = Some (k @ '': '' @ v, rest)"
    using assms(1,2) by (rule header_line_read)
  have l: "k @ '': '' @ v \<noteq> []" by simp
  have cont: "readContinued (trim (k @ '': '' @ v)) rest = (k @ CHR '':'' # w, rest)"
    unfolding t using assms(3) by (rule readContinued_none)
  have kv: "k @ CHR '':'' # w \<noteq> []" by simp
  show ?thesis
    using readHeaderLoop_step [OF r l cont kv c canon ne, of m] w by simp
qed

lemma readHeaderLoop_blank:
  "readHeaderLoop m (CHR 0x0A # body) = (None, m, body)"
proof -
  have "readLine (CHR 0x0A # body) = Some ([], body)"
    using readLine_line [of "[]" body] by simp
  then show ?thesis by (subst readHeaderLoop.simps) simp
qed


lemma assemble_headers_nonblank:
  assumes "\<forall>k \<in> set ks. \<not> HasPrefix k ''Yamn-'' \<longrightarrow> parsedKey k"
  shows "\<not> isBlank (hd (assemble_headers hdr ks @ CHR 0x0A # body))"
  using assms
proof (induction ks)
  case Nil
  then show ?case by (simp add: isBlank_def)
next
  case (Cons k ks)
  show ?case
  proof (cases "HasPrefix k ''Yamn-''")
    case True
    with Cons show ?thesis by simp
  next
    case False
    with Cons.prems have "k \<noteq> []" and "\<not> isBlank (hd k)"
      by (simp_all add: parsedKey_def)
    with False show ?thesis by simp
  qed
qed

lemma readHeaderLoop_assemble:
  assumes "distinct ks"
    and "\<forall>k \<in> set ks. map_of m k = None"
    and "\<forall>k \<in> set ks. \<not> HasPrefix k ''Yamn-'' \<longrightarrow> parsedKey k \<and> parsedValue (Get hdr k)"
  shows "\<exists>m'. readHeaderLoop m (assemble_headers hdr ks @ CHR 0x0A # body) = (None, m', body)
           \<and> map_of m' = (\<lambda>k. if k \<in> set ks \<and> \<not> HasPrefix k ''Yamn-''
                               then Some [Get hdr k] else map_of m k)"
  using assms
proof (induction ks arbitrary: m)
  case Nil
  then show ?case by (simp add: readHeaderLoop_blank)
next
  case (Cons k ks)
  have keys: "\<forall>k \<in> set ks. \<not> HasPrefix k ''Yamn-'' \<longrightarrow> parsedKey k"
    using Cons.prems(3) by simp
  show ?case
  proof (cases "HasPrefix k ''Yamn-''")
    case True
    from Cons.prems have "\<exists>m'. readHeaderLoop m (assemble_headers hdr ks @ CHR 0x0A # body)
             = (None, m', body)
           \<and> map_of m' = (\<lambda>k. if k \<in> set ks \<and> \<not> HasPrefix k ''Yamn-''
                               then Some [Get hdr k] else map_of m k)"
      by (intro Cons.IH) simp_all
    then obtain m' where
      r: "readHeaderLoop m (assemble_headers hdr ks @ CHR 0x0A # body) = (None, m', body)"
      and m': "map_of m' = (\<lambda>k. if k \<in> set ks \<and> \<not> HasPrefix k ''Yamn-''
                               then Some [Get hdr k] else map_of m k)"
      by blast
    have "map_of m' = (\<lambda>k'. if k' \<in> set (k # ks) \<and> \<not> HasPrefix k' ''Yamn-''
                               then Some [Get hdr k'] else map_of m k')"
      unfolding m' using True by auto
    with r True show ?thesis by simp
  next
    case False
    let ?v = "Get hdr k"
    let ?rest = "assemble_headers hdr ks @ CHR 0x0A # body"
    let ?m1 = "AList.update k [?v] m"
    from False Cons.prems(3) have k: "parsedKey k" and v: "parsedValue ?v" by simp_all
    have nb: "?rest = [] \<or> \<not> isBlank (hd ?rest)"
      using assemble_headers_nonblank [OF keys] by blast
    have none: "map_of m k = None" using Cons.prems(2) by simp
    have step: "readHeaderLoop m ((k @ '': '' @ ?v @ [CHR 0x0A]) @ ?rest)
                  = readHeaderLoop ?m1 ?rest"
      using readHeaderLoop_line [OF k v nb, of m] none by simp
    have m1: "map_of ?m1 = (map_of m)(k \<mapsto> [?v])" by (rule update_conv')
    have fresh: "\<forall>k' \<in> set ks. map_of ?m1 k' = None"
      using Cons.prems(1,2) by (auto simp: m1)
    from Cons.prems(1) have d: "distinct ks" by simp
    from Cons.prems(3)
    have c: "\<forall>k \<in> set ks. \<not> HasPrefix k ''Yamn-'' \<longrightarrow> parsedKey k \<and> parsedValue (Get hdr k)"
      by simp
    from Cons.IH [OF d fresh c]
    obtain m' where r: "readHeaderLoop ?m1 ?rest = (None, m', body)"
      and m': "map_of m' = (\<lambda>k. if k \<in> set ks \<and> \<not> HasPrefix k ''Yamn-''
                               then Some [Get hdr k] else map_of ?m1 k)"
      by blast
    have "map_of m' = (\<lambda>k'. if k' \<in> set (k # ks) \<and> \<not> HasPrefix k' ''Yamn-''
                               then Some [Get hdr k'] else map_of m k')"
      unfolding m' m1 using False by auto
    moreover have "readHeaderLoop m (assemble_headers hdr (k # ks) @ CHR 0x0A # body)
                     = (None, m', body)"
      using step r False by simp
    ultimately show ?thesis by blast
  qed
qed

lemma readHeader_assemble:
  assumes "distinct ks"
    and "\<forall>k \<in> set ks. \<not> HasPrefix k ''Yamn-'' \<longrightarrow> parsedKey k \<and> parsedValue (Get hdr k)"
  shows "\<exists>m'. readHeader (assemble_headers hdr ks @ CHR 0x0A # body) = (None, m', body)
           \<and> map_of m' = (\<lambda>k. if k \<in> set ks \<and> \<not> HasPrefix k ''Yamn-''
                               then Some [Get hdr k] else None)"
proof -
  let ?s = "assemble_headers hdr ks @ CHR 0x0A # body"
  have "\<not> isBlank (hd ?s)"
    using assms(2) by (intro assemble_headers_nonblank) simp
  moreover have "?s \<noteq> []" by simp
  ultimately have loop: "readHeader ?s = readHeaderLoop [] ?s"
    by (cases ?s) (simp_all add: readHeader_def)
  have "\<forall>k \<in> set ks. map_of ([] :: (string \<times> string list) list) k = None"
    by simp
  from readHeaderLoop_assemble [OF assms(1) this assms(2), of body]
  obtain m' where r: "readHeaderLoop [] ?s = (None, m', body)"
    and m': "map_of m' = (\<lambda>k. if k \<in> set ks \<and> \<not> HasPrefix k ''Yamn-''
                               then Some [Get hdr k] else map_of [] k)"
    by blast
  from m' have "map_of m' = (\<lambda>k. if k \<in> set ks \<and> \<not> HasPrefix k ''Yamn-''
                               then Some [Get hdr k] else None)"
    by (simp cong: if_cong)
  with r have "readHeader ?s = (None, m', body)
           \<and> map_of m' = (\<lambda>k. if k \<in> set ks \<and> \<not> HasPrefix k ''Yamn-''
                               then Some [Get hdr k] else None)"
    unfolding loop by (intro conjI)
  then show ?thesis by (rule exI [where x = m'])
qed

lemma assemble_headers_lines:
  "assemble_headers hdr ks
     = concat (map (\<lambda>k. k @ '': '' @ Get hdr k @ [CHR 0x0A])
                 (filter (\<lambda>k. \<not> HasPrefix k ''Yamn-'') ks))"
  by (induction ks) simp_all

lemma Get_first:
  "CanonicalMIMEHeaderKey k = k \<Longrightarrow>
     Get hdr k = (case hdr k of None \<Rightarrow> [] | Some [] \<Rightarrow> [] | Some (v # _) \<Rightarrow> v)"
  by (simp add: Get_def)

theorem assemble_repeated_header_counterexample:
  "Header example_msg_two ''To'' = Some [''a@x.org'', ''b@y.org'']
   \<and> assemble example_env example_msg_two = ''To: a@x.org'' @ [CHR 0x0A, CHR 0x0A] @ ''text''
   \<and> (case ReadMessage (assemble example_env example_msg_two) of
         Inl err \<Rightarrow> False
       | Inr m \<Rightarrow> Header m ''To'' = Some [''a@x.org''] \<and> Body m = ''text'')"
  by code_simp

text \<open>
  C7 (amended). Take a message whose header names are as \<open>mail.ReadMessage\<close> yields
  them (lemma \<open>ReadMessage_keys\<close>) and whose first values have no line feed, no blank
  around them and no final carriage return, and let \<open>range\<close> visit each header name
  once. The payload of \<open>assemble\<close> is one line \<open>Name: value\<close> for each header name
  that does not start with \<open>Yamn-\<close>, carrying the first value of that header only,
  then a blank line, then the body. Reading the payload back yields exactly these names,
  each with that one value, and the same body. So no name starting with \<open>Yamn-\<close> is in
  the payload, and the headers read back are the message's own, the internal ones apart,
  when no header has more than one value.
\<close>

theorem assemble_roundtrip:
  assumes "distinct (range_order env (Header msg))"
    and "set (range_order env (Header msg)) = dom (Header msg)"
    and "\<forall>k \<in> dom (Header msg). parsedKey k \<and> parsedValue (Get (Header msg) k)"
  shows "assemble env msg
           = concat (map (\<lambda>k. k @ '': '' @ Get (Header msg) k @ [CHR 0x0A])
                       (filter (\<lambda>k. \<not> HasPrefix k ''Yamn-'') (range_order env (Header msg))))
             @ [CHR 0x0A] @ Body msg
         \<and> (\<forall>k \<in> dom (Header msg).
               Get (Header msg) k
                 = (case Header msg k of None \<Rightarrow> [] | Some [] \<Rightarrow> [] | Some (v # _) \<Rightarrow> v))
         \<and> ReadMessage (assemble env msg)
             = Inr \<lparr>Header = (\<lambda>k. if HasPrefix k ''Yamn-'' then None
                                 else map_option (\<lambda>vs. [Get (Header msg) k]) (Header msg k)),
                    Body = Body msg\<rparr>
         \<and> ((\<forall>k vs. Header msg k = Some vs \<longrightarrow> length vs = 1) \<longrightarrow>
              ReadMessage (assemble env msg)
                = Inr \<lparr>Header = (\<lambda>k. if HasPrefix k ''Yamn-'' then None else Header msg k),
                       Body = Body msg\<rparr>)"
proof (intro conjI ballI impI)
  let ?hdr = "Header msg"
  let ?ks = "range_order env ?hdr"
  let ?reread = "\<lambda>k. if HasPrefix k ''Yamn-'' then None
                    else map_option (\<lambda>vs. [Get ?hdr k]) (?hdr k)"
  show "assemble env msg
           = concat (map (\<lambda>k. k @ '': '' @ Get ?hdr k @ [CHR 0x0A])
                       (filter (\<lambda>k. \<not> HasPrefix k ''Yamn-'') ?ks))
             @ [CHR 0x0A] @ Body msg"
    by (simp add: assemble_def assemble_headers_lines)
  show first: "Get ?hdr k = (case ?hdr k of None \<Rightarrow> [] | Some [] \<Rightarrow> [] | Some (v # _) \<Rightarrow> v)"
    if "k \<in> dom ?hdr" for k
    using that assms(3) by (intro Get_first) (simp add: parsedKey_def)
  have ok: "\<forall>k \<in> set ?ks. \<not> HasPrefix k ''Yamn-''
              \<longrightarrow> parsedKey k \<and> parsedValue (Get ?hdr k)"
    using assms(2,3) by simp
  from readHeader_assemble [OF assms(1) ok, of "Body msg"]
  obtain m' where r: "readHeader (assemble_headers ?hdr ?ks @ CHR 0x0A # Body msg)
                        = (None, m', Body msg)"
    and m': "map_of m' = (\<lambda>k. if k \<in> set ?ks \<and> \<not> HasPrefix k ''Yamn-''
                               then Some [Get ?hdr k] else None)"
    by blast
  have "map_of m' k = ?reread k" for k
    unfolding m' assms(2) by (cases "?hdr k") auto
  then have bk: "map_of m' = ?reread" by (rule ext)
  show rt: "ReadMessage (assemble env msg) = Inr \<lparr>Header = ?reread, Body = Body msg\<rparr>"
    using r bk by (simp add: ReadMessage_def assemble_def)
  show "ReadMessage (assemble env msg)
          = Inr \<lparr>Header = (\<lambda>k. if HasPrefix k ''Yamn-'' then None else ?hdr k),
                 Body = Body msg\<rparr>"
    if one: "\<forall>k vs. ?hdr k = Some vs \<longrightarrow> length vs = 1"
  proof -
    have "?reread k = (if HasPrefix k ''Yamn-'' then None else ?hdr k)" for k
    proof (cases "?hdr k")
      case None
      then show ?thesis by simp
    next
      case (Some vs)
      with one have "length vs = 1" by blast
      then obtain v where vs: "vs = [v]" by (cases vs) auto
      from Some have "k \<in> dom ?hdr" by blast
      from first [OF this] Some vs have "Get ?hdr k = v" by simp
      with Some vs show ?thesis by simp
    qed
    then have "?reread = (\<lambda>k. if HasPrefix k ''Yamn-'' then None else ?hdr k)" by (rule ext)
    with rt show ?thesis by simp
  qed
qed


theorem assemble_roundtrip_witness:
  "range_order example_env (Header example_msg) = [''Subject'', ''To'', ''Yamn-Pooled-Date'']
   \<and> dom (Header example_msg) = {''Subject'', ''To'', ''Yamn-Pooled-Date''}
   \<and> assemble example_env example_msg
       = ''Subject: hello'' @ [CHR 0x0A] @ ''To: user@example.org'' @ [CHR 0x0A, CHR 0x0A]
         @ ''text''
   \<and> ReadMessage (assemble example_env example_msg)
       = Inr \<lparr>Header = (\<lambda>k. if HasPrefix k ''Yamn-'' then None else Header example_msg k),
              Body = ''text''\<rparr>"
proof -
  let ?hdr = "Header example_msg"
  have o: "range_order example_env ?hdr = [''Subject'', ''To'', ''Yamn-Pooled-Date'']"
    by (simp add: example_env_def example_msg_def)
  have d: "dom ?hdr = {''Subject'', ''To'', ''Yamn-Pooled-Date''}"
    by (auto simp: example_msg_def)
  have a1: "distinct (range_order example_env ?hdr)" unfolding o by simp
  have a2: "set (range_order example_env ?hdr) = dom ?hdr" unfolding o d by simp
  have k1: "parsedKey ''Subject'' \<and> parsedValue (Get ?hdr ''Subject'')" by code_simp
  have k2: "parsedKey ''To'' \<and> parsedValue (Get ?hdr ''To'')" by code_simp
  have k3: "parsedKey ''Yamn-Pooled-Date'' \<and> parsedValue (Get ?hdr ''Yamn-Pooled-Date'')"
    by code_simp
  have a3: "\<forall>k \<in> dom ?hdr. parsedKey k \<and> parsedValue (Get ?hdr k)"
    unfolding d using k1 k2 k3 by blast
  have one: "\<forall>k vs. ?hdr k = Some vs \<longrightarrow> length vs = 1"
    by (auto simp: example_msg_def split: if_splits)
  have p: "assemble example_env example_msg
       = ''Subject: hello'' @ [CHR 0x0A] @ ''To: user@example.org'' @ [CHR 0x0A, CHR 0x0A]
         @ ''text''"
    by code_simp
  have b: "Body example_msg = ''text''" by (simp add: example_msg_def)
  have "ReadMessage (assemble example_env example_msg)
       = Inr \<lparr>Header = (\<lambda>k. if HasPrefix k ''Yamn-'' then None else ?hdr k),
              Body = Body example_msg\<rparr>"
    using assemble_roundtrip [OF a1 a2 a3] one by blast
  with o d p b show ?thesis by simp
qed

end
